theory Spec2Isabelle
  imports Main
begin

section \<open>JavaScript values used by the cache\<close>

text \<open>
  The cache of \<^verbatim>\<open>src/src/index.ts\<close> checks the run-time type of the numbers it is
  configured with (\<^verbatim>\<open>typeof x !== 'number'\<close>) and relies on truthiness (\<^verbatim>\<open>x || y\<close>,
  \<^verbatim>\<open>!x\<close>). A configuration value is therefore a small dynamic value. Numbers are modelled
  as integers (milliseconds, weights and item counts); the only non-integer number the code
  itself produces is \<^verbatim>\<open>Infinity\<close>, the capacity of an unbounded cache, which is a
  constructor of the type of capacities.
\<close>

datatype jsval = JUndefined | JBool bool | JNum int | JStr string

fun truthy :: "jsval \<Rightarrow> bool" where
  "truthy JUndefined = False"
| "truthy (JBool b) = b"
| "truthy (JNum n) = (n \<noteq> 0)"
| "truthy (JStr s) = (s \<noteq> [])"

fun is_number :: "jsval \<Rightarrow> bool" where
  "is_number (JNum n) = True"
| "is_number v = False"

fun less_zero :: "jsval \<Rightarrow> bool" where
  "less_zero (JNum n) = (n < 0)"
| "less_zero v = False"

datatype bound = Finite int | Infinity

text \<open>\<^verbatim>\<open>x > this[MAX]\<close> and \<^verbatim>\<open>x || Infinity\<close>.\<close>

fun gt :: "int \<Rightarrow> bound \<Rightarrow> bool" where
  "gt x (Finite m) = (m < x)"
| "gt x Infinity = False"

fun or_Infinity :: "jsval \<Rightarrow> bound" where
  "or_Infinity (JNum n) = (if n \<noteq> 0 then Finite n else Infinity)"
| "or_Infinity v = Infinity"

datatype error = TypeError string

text \<open>
  A JavaScript number is an IEEE 754 double. A double holds every integer of magnitude up to
  \<open>2 ^ 53\<close> exactly; beyond that it has 53 significant bits, and the sum or difference of
  two doubles is the double nearest to the exact result, the one with the even last bit
  when two are equally near. The timestamps of \<^verbatim>\<open>Date.now()\<close> and the ages are
  milliseconds, far below \<open>2 ^ 53\<close>, and the model computes with them exactly. The weights
  and the running total \<^verbatim>\<open>this[LENGTH]\<close> are numbers the caller's length function
  chooses, and the total is accumulated by \<^verbatim>\<open>+=\<close> and \<^verbatim>\<open>-=\<close>: the model rounds every
  sum and difference of weights as the double does. \<open>expo a\<close> is the number of low bits
  a double cannot hold of the non-negative integer \<open>a\<close>, and \<open>fl x\<close> is the double nearest
  to the integer \<open>x\<close>. Weights that are not integers, and totals that overflow a double
  (beyond \<open>2 ^ 1024\<close>), are outside the model.
\<close>

function expo :: "int \<Rightarrow> nat" where
  "expo a = (if a < 2 ^ 53 then 0 else Suc (expo (a div 2)))"
  by pat_completeness auto
termination
  by (relation "measure nat") auto

declare expo.simps [simp del]

definition fl :: "int \<Rightarrow> int" where
  "fl x =
     (let a = \<bar>x\<bar>;
          u = 2 ^ expo a;
          q = a div u;
          r = a mod u;
          m = (if 2 * r < u then q
               else if u < 2 * r then q + 1
               else if even q then q else q + 1)
      in sgn x * (m * u))"

text \<open>\<^verbatim>\<open>a + b\<close> and \<^verbatim>\<open>a - b\<close> on weights.\<close>

definition num_add :: "int \<Rightarrow> int \<Rightarrow> int" where
  "num_add a b = fl (a + b)"

definition num_sub :: "int \<Rightarrow> int \<Rightarrow> int" where
  "num_sub a b = fl (a - b)"

section \<open>Entries, options and the cache object\<close>

text \<open>Class \<^verbatim>\<open>LEntry\<close>: the constructor stores \<^verbatim>\<open>maxAge || 0\<close>, which on a number
  is the number itself.\<close>

record ('k, 'v) LEntry =
  hit_key :: 'k
  hit_value :: 'v
  hit_length :: int
  hit_now :: int
  hit_maxAge :: int

definition new_LEntry :: "'k \<Rightarrow> 'v \<Rightarrow> int \<Rightarrow> int \<Rightarrow> int \<Rightarrow> ('k, 'v) LEntry" where
  "new_LEntry key val len now maxAge =
     \<lparr>hit_key = key, hit_value = val, hit_length = len, hit_now = now,
      hit_maxAge = (if maxAge \<noteq> 0 then maxAge else 0)\<rparr>"

text \<open>Interface \<^verbatim>\<open>Entry\<close>, the serialised form \<^verbatim>\<open>{k, v, e}\<close>.\<close>

record ('k, 'v) Entry =
  entry_k :: 'k
  entry_v :: 'v
  entry_e :: int

text \<open>Interface \<^verbatim>\<open>Options\<close>. \<open>opt_max\<close> and \<open>opt_maxAge\<close> are dynamic values
  (\<open>JUndefined\<close> when the option is not given); \<open>opt_length\<close> is \<open>None\<close> when no
  function is given; \<open>opt_dispose\<close> says whether a dispose callback is configured.\<close>

record ('k, 'v) Options =
  opt_max :: jsval
  opt_maxAge :: jsval
  opt_length :: "('v \<Rightarrow> 'k \<Rightarrow> int) option"
  opt_dispose :: bool
  opt_stale :: bool
  opt_noDisposeOnSet :: bool
  opt_updateAgeOnGet :: bool

definition naiveLength :: "'v \<Rightarrow> 'k \<Rightarrow> int" where
  "naiveLength val key = 1"

text \<open>
  The cache object. The fields in capitals are the symbol-keyed private fields of the class.
  \<^item> \<open>LRU_LIST\<close> is the recency list, head (most recently used) first. Its elements are
    node references (natural numbers); \<open>heap\<close> maps a node reference to the \<^verbatim>\<open>LEntry\<close>
    the node holds, so that the list and the index share the nodes as they do in the source.
  \<^item> \<open>CACHE\<close> is the \<^verbatim>\<open>Map\<close> from key to node, kept in insertion order as a JavaScript
    \<^verbatim>\<open>Map\<close> is.
  \<^item> \<open>next_id\<close> is the next unused node reference.
  \<^item> \<open>DISPOSE\<close> says whether a dispose callback is configured; \<open>disposed\<close> is the log of
    the calls made to it, oldest first. The callback is assumed not to re-enter the cache.
  \<^item> \<open>clock\<close> is what \<^verbatim>\<open>Date.now()\<close> returns. It does not advance while one public
    operation runs.
\<close>

record ('k, 'v) LRUCache =
  MAX' :: bound
  LENGTH :: int
  LENGTH_CALCULATOR :: "'v \<Rightarrow> 'k \<Rightarrow> int"
  ALLOW_STALE :: bool
  MAX_AGE :: int
  DISPOSE :: bool
  NO_DISPOSE_ON_SET :: bool
  UPDATE_AGE_ON_GET :: bool
  LRU_LIST :: "nat list"
  CACHE :: "('k \<times> nat) list"
  heap :: "nat \<Rightarrow> ('k, 'v) LEntry option"
  next_id :: nat
  disposed :: "('k \<times> 'v) list"
  clock :: int

section \<open>The recency list\<close>

text \<open>Modelled from the spec: the doubly linked list \<^verbatim>\<open>Yallist\<close> is an external package;
  the spec describes it as an ordered sequence with insert-at-head, unlink-and-reinsert-at-head
  of an existing node and removal of an arbitrary node.\<close>

definition unshift :: "nat list \<Rightarrow> nat \<Rightarrow> nat list" where
  "unshift l node = node # l"

definition removeNode :: "nat list \<Rightarrow> nat \<Rightarrow> nat list" where
  "removeNode l node = remove1 node l"

definition unshiftNode :: "nat list \<Rightarrow> nat \<Rightarrow> nat list" where
  "unshiftNode l node = node # remove1 node l"

definition tail :: "nat list \<Rightarrow> nat option" where
  "tail l = (case l of [] \<Rightarrow> None | x # xs \<Rightarrow> Some (last l))"

text \<open>The entries of the list, head first (\<^verbatim>\<open>toArray\<close>, \<^verbatim>\<open>forEach\<close>, \<^verbatim>\<open>map\<close>).\<close>

definition toArray :: "('k, 'v) LRUCache \<Rightarrow> ('k, 'v) LEntry list" where
  "toArray self = List.map_filter (heap self) (LRU_LIST self)"

section \<open>The internal functions\<close>

definition Date_now :: "('k, 'v) LRUCache \<Rightarrow> int" where
  "Date_now self = clock self"

text \<open>\<^verbatim>\<open>isStale\<close>: \<open>None\<close> is a missing \<^verbatim>\<open>hit\<close>.\<close>

definition isStale :: "('k, 'v) LRUCache \<Rightarrow> ('k, 'v) LEntry option \<Rightarrow> bool" where
  "isStale self hit =
     (case hit of
        None \<Rightarrow> False
      | Some h \<Rightarrow>
          if hit_maxAge h = 0 \<and> MAX_AGE self = 0 then False
          else
            let diff = Date_now self - hit_now h
            in if hit_maxAge h \<noteq> 0 then diff > hit_maxAge h
               else MAX_AGE self \<noteq> 0 \<and> diff > MAX_AGE self)"

definition call_dispose :: "('k, 'v) LRUCache \<Rightarrow> 'k \<Rightarrow> 'v \<Rightarrow> ('k, 'v) LRUCache" where
  "call_dispose self key val = self\<lparr>disposed := disposed self @ [(key, val)]\<rparr>"

text \<open>\<^verbatim>\<open>del(self, node)\<close>. In the source a node always holds an entry. A node reference
  without an entry in the heap is outside the states the source can be in (the invariant
  \<open>cache_inv\<close> below excludes it); \<open>del\<close>, \<open>set\<close> and the loops leave the cache as it is
  there.\<close>

definition del :: "('k, 'v) LRUCache \<Rightarrow> nat option \<Rightarrow> ('k, 'v) LRUCache" where
  "del self node =
     (case node of
        None \<Rightarrow> self
      | Some n \<Rightarrow>
          (case heap self n of
             None \<Rightarrow> self
           | Some hit \<Rightarrow>
               let s1 = (if DISPOSE self then call_dispose self (hit_key hit) (hit_value hit)
                         else self)
               in s1\<lparr>LENGTH := num_sub (LENGTH s1) (hit_length hit),
                      CACHE := filter (\<lambda>(k, m). k \<noteq> hit_key hit) (CACHE s1),
                      LRU_LIST := removeNode (LRU_LIST s1) n\<rparr>))"

text \<open>\<^verbatim>\<open>trim\<close>: the walker starts at the tail and moves to \<^verbatim>\<open>walker.prev\<close>, read before
  the walker is deleted; deleting the walker leaves its predecessors in place, so the
  walker runs through the reversed list as it was when the loop started.\<close>

fun trim_loop :: "('k, 'v) LRUCache \<Rightarrow> nat list \<Rightarrow> ('k, 'v) LRUCache" where
  "trim_loop self [] = self"
| "trim_loop self (walker # prevs) =
     (if gt (LENGTH self) (MAX' self) then trim_loop (del self (Some walker)) prevs else self)"

definition trim :: "('k, 'v) LRUCache \<Rightarrow> ('k, 'v) LRUCache" where
  "trim self =
     (if gt (LENGTH self) (MAX' self) then trim_loop self (rev (LRU_LIST self)) else self)"

text \<open>\<^verbatim>\<open>get(self, key, doUse)\<close>; the result \<open>None\<close> is \<^verbatim>\<open>undefined\<close>.\<close>

definition get :: "('k, 'v) LRUCache \<Rightarrow> 'k \<Rightarrow> bool \<Rightarrow> 'v option \<times> ('k, 'v) LRUCache" where
  "get self key doUse =
     (case map_of (CACHE self) key of
        None \<Rightarrow> (None, self)
      | Some node \<Rightarrow>
          let hit = heap self node
          in if isStale self hit then
               let s1 = del self (Some node)
               in if \<not> ALLOW_STALE s1 then (None, s1) else (map_option hit_value hit, s1)
             else if doUse then
               let s1 = (if UPDATE_AGE_ON_GET self
                         then self\<lparr>heap := (heap self)(node :=
                                map_option (\<lambda>h. h\<lparr>hit_now := Date_now self\<rparr>) hit)\<rparr>
                         else self)
               in (map_option hit_value hit,
                   s1\<lparr>LRU_LIST := unshiftNode (LRU_LIST s1) node\<rparr>)
             else (map_option hit_value hit, self))"

text \<open>\<^verbatim>\<open>forEachStep\<close>: the second component is the pair the visitor \<^verbatim>\<open>fn\<close> is called
  with, if it is called.\<close>

definition forEachStep ::
  "('k, 'v) LRUCache \<Rightarrow> nat \<Rightarrow> ('k, 'v) LRUCache \<times> ('v \<times> 'k) option" where
  "forEachStep self node =
     (let hit = heap self node
      in if isStale self hit then
           let s1 = del self (Some node);
               hit' = (if \<not> ALLOW_STALE s1 then None else hit)
           in (s1, map_option (\<lambda>h. (hit_value h, hit_key h)) hit')
         else (self, map_option (\<lambda>h. (hit_value h, hit_key h)) hit))"

section \<open>The public methods of class LRUCache\<close>

text \<open>\<^verbatim>\<open>reset()\<close>: dispose is called for every entry of the list, head first, when a callback
  is configured and the list is not empty; then the index and the list are new and empty.\<close>

definition reset :: "('k, 'v) LRUCache \<Rightarrow> ('k, 'v) LRUCache" where
  "reset self =
     (let s1 = (if DISPOSE self \<and> LRU_LIST self \<noteq> []
                then self\<lparr>disposed := disposed self @
                       map (\<lambda>hit. (hit_key hit, hit_value hit)) (toArray self)\<rparr>
                else self)
      in s1\<lparr>CACHE := [], LRU_LIST := [], LENGTH := 0\<rparr>)"

text \<open>The constructor takes a number, an options object or nothing. \<open>clk\<close> is the reading of
  the clock of the environment the object lives in. The object has no list before its first
  \<^verbatim>\<open>reset()\<close>, so that call disposes of nothing.\<close>

datatype ('k, 'v) ctor_arg = NoArg | NumArg int | OptArg "('k, 'v) Options"

definition empty_Options :: "('k, 'v) Options" where
  "empty_Options =
     \<lparr>opt_max = JUndefined, opt_maxAge = JUndefined, opt_length = None, opt_dispose = False,
      opt_stale = False, opt_noDisposeOnSet = False, opt_updateAgeOnGet = False\<rparr>"

definition constructor :: "('k, 'v) ctor_arg \<Rightarrow> int \<Rightarrow> error + ('k, 'v) LRUCache" where
  "constructor arg clk =
     (let options = (case arg of
                       NumArg n \<Rightarrow> empty_Options\<lparr>opt_max := JNum n\<rparr>
                     | NoArg \<Rightarrow> empty_Options
                     | OptArg opts \<Rightarrow> opts)
      in if truthy (opt_max options) \<and>
            (\<not> is_number (opt_max options) \<or> less_zero (opt_max options))
         then Inl (TypeError ''max must be a non-negative number'')
         else if truthy (opt_maxAge options) \<and> \<not> is_number (opt_maxAge options)
         then Inl (TypeError ''maxAge must be a number'')
         else Inr (reset
           \<lparr>MAX' = or_Infinity (opt_max options),
            LENGTH = 0,
            LENGTH_CALCULATOR = (case opt_length options of None \<Rightarrow> naiveLength | Some lc \<Rightarrow> lc),
            ALLOW_STALE = opt_stale options,
            MAX_AGE = (case opt_maxAge options of JNum n \<Rightarrow> n | _ \<Rightarrow> 0),
            DISPOSE = opt_dispose options,
            NO_DISPOSE_ON_SET = opt_noDisposeOnSet options,
            UPDATE_AGE_ON_GET = opt_updateAgeOnGet options,
            LRU_LIST = [],
            CACHE = [],
            heap = (\<lambda>n. None),
            next_id = 0,
            disposed = [],
            clock = clk\<rparr>))"

text \<open>The setters \<^verbatim>\<open>max\<close>, \<^verbatim>\<open>allowStale\<close>, \<^verbatim>\<open>maxAge\<close> and \<^verbatim>\<open>lengthCalculator\<close>. A setter
  that throws has assigned nothing before, so the object it returns with the error is the
  one it was given.\<close>

definition set_max :: "('k, 'v) LRUCache \<Rightarrow> jsval \<Rightarrow> (error + unit) \<times> ('k, 'v) LRUCache" where
  "set_max self mL =
     (if \<not> is_number mL \<or> less_zero mL
      then (Inl (TypeError ''max must be a non-negative number''), self)
      else (Inr (), trim (self\<lparr>MAX' := or_Infinity mL\<rparr>)))"

definition set_allowStale :: "('k, 'v) LRUCache \<Rightarrow> bool \<Rightarrow> ('k, 'v) LRUCache" where
  "set_allowStale self allowStale = self\<lparr>ALLOW_STALE := allowStale\<rparr>"

definition set_maxAge :: "('k, 'v) LRUCache \<Rightarrow> jsval \<Rightarrow> (error + unit) \<times> ('k, 'v) LRUCache" where
  "set_maxAge self mA =
     (case mA of
        JNum n \<Rightarrow> (Inr (), trim (self\<lparr>MAX_AGE := n\<rparr>))
      | _ \<Rightarrow> (Inl (TypeError ''maxAge must be a non-negative number''), self))"

text \<open>In \<^verbatim>\<open>lengthCalculator\<close> the test \<^verbatim>\<open>lC !== this[LENGTH_CALCULATOR]\<close> compares function
  objects; here it compares the functions. The loop gives every entry of the list its new
  length and adds it to the total.\<close>

fun relength_loop :: "('k, 'v) LRUCache \<Rightarrow> nat list \<Rightarrow> ('k, 'v) LRUCache" where
  "relength_loop self [] = self"
| "relength_loop self (node # rest) =
     (case heap self node of
        None \<Rightarrow> relength_loop self rest
      | Some hit \<Rightarrow>
          let len = LENGTH_CALCULATOR self (hit_value hit) (hit_key hit)
          in relength_loop
               (self\<lparr>heap := (heap self)(node := Some (hit\<lparr>hit_length := len\<rparr>)),
                      LENGTH := num_add (LENGTH self) len\<rparr>) rest)"

definition set_lengthCalculator ::
  "('k, 'v) LRUCache \<Rightarrow> ('v \<Rightarrow> 'k \<Rightarrow> int) option \<Rightarrow> ('k, 'v) LRUCache" where
  "set_lengthCalculator self lC0 =
     (let lC = (case lC0 of None \<Rightarrow> naiveLength | Some f \<Rightarrow> f);
          s1 = (if lC \<noteq> LENGTH_CALCULATOR self
                then relength_loop (self\<lparr>LENGTH_CALCULATOR := lC, LENGTH := 0\<rparr>) (LRU_LIST self)
                else self)
      in trim s1)"

text \<open>\<^verbatim>\<open>keys()\<close>, \<^verbatim>\<open>values()\<close> and \<^verbatim>\<open>dump()\<close> read the list and change nothing.\<close>

definition keys :: "('k, 'v) LRUCache \<Rightarrow> 'k list" where
  "keys self = map hit_key (toArray self)"

definition values_of :: "('k, 'v) LRUCache \<Rightarrow> 'v list" where
  "values_of self = map hit_value (toArray self)"

definition dump :: "('k, 'v) LRUCache \<Rightarrow> ('k, 'v) Entry list" where
  "dump self =
     List.map_filter
       (\<lambda>hit. if isStale self (Some hit) then None
              else Some \<lparr>entry_k = hit_key hit, entry_v = hit_value hit,
                         entry_e = hit_now hit + hit_maxAge hit\<rparr>)
       (toArray self)"

text \<open>\<^verbatim>\<open>set(key, value, maxAge?)\<close>. \<open>maxAge0\<close> is \<open>JUndefined\<close> when the argument is not
  given. After \<^verbatim>\<open>maxAge || this[MAX_AGE]\<close> and the type check, \<^verbatim>\<open>maxAge\<close> is a number.\<close>

definition LRUCache_get :: "('k, 'v) LRUCache \<Rightarrow> 'k \<Rightarrow> 'v option \<times> ('k, 'v) LRUCache" where
  "LRUCache_get self key = get self key True"

definition LRUCache_set ::
  "('k, 'v) LRUCache \<Rightarrow> 'k \<Rightarrow> 'v \<Rightarrow> jsval \<Rightarrow> (error + bool) \<times> ('k, 'v) LRUCache" where
  "LRUCache_set self key val maxAge0 =
     (let maxAge1 = (if truthy maxAge0 then maxAge0 else JNum (MAX_AGE self))
      in if truthy maxAge1 \<and> \<not> is_number maxAge1
         then (Inl (TypeError ''maxAge must be a number''), self)
         else
           let maxAge = (case maxAge1 of JNum n \<Rightarrow> n | _ \<Rightarrow> 0);
               now = (if maxAge \<noteq> 0 then Date_now self else 0);
               len = LENGTH_CALCULATOR self val key
           in case map_of (CACHE self) key of
                Some node \<Rightarrow>
                  if gt len (MAX' self) then (Inr False, del self (Some node))
                  else
                    (case heap self node of
                       None \<Rightarrow> (Inr True, self)
                     | Some item \<Rightarrow>
                         let s1 = (if DISPOSE self \<and> \<not> NO_DISPOSE_ON_SET self
                                   then call_dispose self key (hit_value item) else self);
                             item' = item\<lparr>hit_now := now, hit_maxAge := maxAge,
                                          hit_value := val, hit_length := len\<rparr>;
                             s2 = s1\<lparr>heap := (heap s1)(node := Some item'),
                                     LENGTH := num_add (LENGTH s1) (num_sub len (hit_length item))\<rparr>;
                             s3 = snd (LRUCache_get s2 key)
                         in (Inr True, trim s3))
              | None \<Rightarrow>
                  let hit = new_LEntry key val len now maxAge
                  in if gt (hit_length hit) (MAX' self)
                     then (Inr False, if DISPOSE self then call_dispose self key val else self)
                     else
                       let node = next_id self;
                           s1 = self\<lparr>LENGTH := num_add (LENGTH self) (hit_length hit),
                                     heap := (heap self)(node := Some hit),
                                     next_id := Suc node,
                                     LRU_LIST := unshift (LRU_LIST self) node\<rparr>;
                           s2 = s1\<lparr>CACHE := CACHE s1 @ [(key, node)]\<rparr>
                       in (Inr True, trim s2))"

text \<open>\<^verbatim>\<open>has(key)\<close> returns its answer and the object, which it does not assign to.\<close>

definition has :: "('k, 'v) LRUCache \<Rightarrow> 'k \<Rightarrow> bool \<times> ('k, 'v) LRUCache" where
  "has self key =
     (case map_of (CACHE self) key of
        None \<Rightarrow> (False, self)
      | Some node \<Rightarrow> (\<not> isStale self (heap self node), self))"

definition peek :: "('k, 'v) LRUCache \<Rightarrow> 'k \<Rightarrow> 'v option \<times> ('k, 'v) LRUCache" where
  "peek self key = get self key False"

definition pop :: "('k, 'v) LRUCache \<Rightarrow> ('k, 'v) LEntry option \<times> ('k, 'v) LRUCache" where
  "pop self =
     (case tail (LRU_LIST self) of
        None \<Rightarrow> (None, self)
      | Some node \<Rightarrow> (heap self node, del self (Some node)))"

definition LRUCache_del :: "('k, 'v) LRUCache \<Rightarrow> 'k \<Rightarrow> ('k, 'v) LRUCache" where
  "LRUCache_del self key = del self (map_of (CACHE self) key)"

text \<open>\<^verbatim>\<open>load(arr)\<close>: the loop runs from the last record to the first; \<^verbatim>\<open>hit.e || 0\<close> is
  \<^verbatim>\<open>hit.e\<close> on a number. An error of \<^verbatim>\<open>set\<close> ends the loop.\<close>

fun load_loop ::
  "('k, 'v) LRUCache \<Rightarrow> int \<Rightarrow> ('k, 'v) Entry list \<Rightarrow> (error + unit) \<times> ('k, 'v) LRUCache" where
  "load_loop self now [] = (Inr (), self)"
| "load_loop self now (hit # rest) =
     (let expiresAt = entry_e hit
      in if expiresAt = 0 then
           (case LRUCache_set self (entry_k hit) (entry_v hit) JUndefined of
              (Inl err, s1) \<Rightarrow> (Inl err, s1)
            | (Inr ok, s1) \<Rightarrow> load_loop s1 now rest)
         else
           let maxAge = expiresAt - now
           in if maxAge > 0 then
                (case LRUCache_set self (entry_k hit) (entry_v hit) (JNum maxAge) of
                   (Inl err, s1) \<Rightarrow> (Inl err, s1)
                 | (Inr ok, s1) \<Rightarrow> load_loop s1 now rest)
              else load_loop self now rest)"

definition load ::
  "('k, 'v) LRUCache \<Rightarrow> ('k, 'v) Entry list \<Rightarrow> (error + unit) \<times> ('k, 'v) LRUCache" where
  "load self arr = (let s1 = reset self; now = Date_now s1 in load_loop s1 now (rev arr))"

text \<open>\<^verbatim>\<open>prune()\<close> visits the keys of the index in insertion order. The visit of a key removes
  at most that key, so the keys visited are the keys the index had at the start.\<close>

fun prune_loop :: "('k, 'v) LRUCache \<Rightarrow> 'k list \<Rightarrow> ('k, 'v) LRUCache" where
  "prune_loop self [] = self"
| "prune_loop self (key # rest) = prune_loop (snd (get self key False)) rest"

definition prune :: "('k, 'v) LRUCache \<Rightarrow> ('k, 'v) LRUCache" where
  "prune self = prune_loop self (map fst (CACHE self))"

text \<open>\<^verbatim>\<open>forEach\<close> and \<^verbatim>\<open>rforEach\<close>: the walker reads its successor (predecessor) before the
  step, and the step removes at most the walker. The result lists the pairs the visitor was
  called with, in order.\<close>

fun forEach_loop ::
  "('k, 'v) LRUCache \<Rightarrow> nat list \<Rightarrow> ('v \<times> 'k) list \<times> ('k, 'v) LRUCache" where
  "forEach_loop self [] = ([], self)"
| "forEach_loop self (walker # rest) =
     (case forEachStep self walker of
        (s1, call) \<Rightarrow>
          (case forEach_loop s1 rest of
             (calls, s2) \<Rightarrow> ((case call of None \<Rightarrow> [] | Some c \<Rightarrow> [c]) @ calls, s2)))"

definition forEach :: "('k, 'v) LRUCache \<Rightarrow> ('v \<times> 'k) list \<times> ('k, 'v) LRUCache" where
  "forEach self = forEach_loop self (LRU_LIST self)"

definition rforEach :: "('k, 'v) LRUCache \<Rightarrow> ('v \<times> 'k) list \<times> ('k, 'v) LRUCache" where
  "rforEach self = forEach_loop self (rev (LRU_LIST self))"

section \<open>Sequences of operations\<close>

text \<open>One public operation on a cache; \<open>Tick t\<close> is the environment: the clock reads \<open>t\<close>
  from now on. \<open>exec\<close> is the cache after the operation, whatever it returned or threw.\<close>

datatype ('k, 'v) op =
    Op_set 'k 'v jsval | Op_get 'k | Op_peek 'k | Op_has 'k | Op_del 'k | Op_pop | Op_reset
  | Op_prune | Op_load "('k, 'v) Entry list" | Op_dump | Op_keys | Op_values
  | Op_forEach | Op_rforEach | Op_max jsval | Op_maxAge jsval | Op_allowStale bool
  | Op_lengthCalculator "('v \<Rightarrow> 'k \<Rightarrow> int) option" | Tick int

fun exec :: "('k, 'v) LRUCache \<Rightarrow> ('k, 'v) op \<Rightarrow> ('k, 'v) LRUCache" where
  "exec self (Op_set key val maxAge) = snd (LRUCache_set self key val maxAge)"
| "exec self (Op_get key) = snd (LRUCache_get self key)"
| "exec self (Op_peek key) = snd (peek self key)"
| "exec self (Op_has key) = snd (has self key)"
| "exec self (Op_del key) = LRUCache_del self key"
| "exec self Op_pop = snd (pop self)"
| "exec self Op_reset = reset self"
| "exec self Op_prune = prune self"
| "exec self (Op_load arr) = snd (load self arr)"
| "exec self Op_dump = self"
| "exec self Op_keys = self"
| "exec self Op_values = self"
| "exec self Op_forEach = snd (forEach self)"
| "exec self Op_rforEach = snd (rforEach self)"
| "exec self (Op_max mL) = snd (set_max self mL)"
| "exec self (Op_maxAge mA) = snd (set_maxAge self mA)"
| "exec self (Op_allowStale b) = set_allowStale self b"
| "exec self (Op_lengthCalculator lC) = set_lengthCalculator self lC"
| "exec self (Tick t) = self\<lparr>clock := t\<rparr>"

section \<open>Predicates of the specification\<close>

text \<open>The weight the heap records for a node, and the structural invariant that ties the
  index, the list and the heap together.\<close>

definition weight :: "('k, 'v) LRUCache \<Rightarrow> nat \<Rightarrow> int" where
  "weight self node = (case heap self node of None \<Rightarrow> 0 | Some hit \<Rightarrow> hit_length hit)"

definition cache_inv :: "('k, 'v) LRUCache \<Rightarrow> bool" where
  "cache_inv self \<longleftrightarrow>
     distinct (map fst (CACHE self)) \<and>
     distinct (map snd (CACHE self)) \<and>
     distinct (LRU_LIST self) \<and>
     set (map snd (CACHE self)) = set (LRU_LIST self) \<and>
     (\<forall>(k, n) \<in> set (CACHE self). \<exists>hit. heap self n = Some hit \<and> hit_key hit = k) \<and>
     (\<forall>n \<in> set (LRU_LIST self). n < next_id self)"

text \<open>The invariant as the specification words it. Its first half, \<open>same_keys\<close>: the
  index and the list hold the same keys, each once, and they have the same size. Its second
  half: the running total is the sum of the weights of the entries of the list.\<close>

definition same_keys :: "('k, 'v) LRUCache \<Rightarrow> bool" where
  "same_keys self \<longleftrightarrow>
     set (map fst (CACHE self)) = set (keys self) \<and>
     distinct (map fst (CACHE self)) \<and> distinct (keys self) \<and>
     length (CACHE self) = length (LRU_LIST self) \<and>
     length (toArray self) = length (LRU_LIST self)"


text \<open>The number \<^verbatim>\<open>maxAge\<close> holds in \<^verbatim>\<open>set\<close> after \<^verbatim>\<open>maxAge || this[MAX_AGE]\<close>, and the
  timestamp \<^verbatim>\<open>now\<close> computed from it.\<close>

definition set_maxAge_arg :: "('k, 'v) LRUCache \<Rightarrow> jsval \<Rightarrow> int" where
  "set_maxAge_arg self maxAge0 =
     (case (if truthy maxAge0 then maxAge0 else JNum (MAX_AGE self)) of JNum n \<Rightarrow> n | _ \<Rightarrow> 0)"

definition set_now :: "('k, 'v) LRUCache \<Rightarrow> jsval \<Rightarrow> int" where
  "set_now self maxAge0 = (if set_maxAge_arg self maxAge0 \<noteq> 0 then Date_now self else 0)"

text \<open>An entry with its length recomputed by a length calculator, and the weight a node
  gets from a length calculator.\<close>

definition relength :: "('v \<Rightarrow> 'k \<Rightarrow> int) \<Rightarrow> ('k, 'v) LEntry \<Rightarrow> ('k, 'v) LEntry" where
  "relength lC hit = hit\<lparr>hit_length := lC (hit_value hit) (hit_key hit)\<rparr>"


text \<open>Staleness as the specification words it: a TTL is in effect for the entry (its own
  override if non-zero, else the default of the cache) and more than that time has passed
  since the entry's timestamp.\<close>

definition effectiveTtl :: "('k, 'v) LRUCache \<Rightarrow> ('k, 'v) LEntry \<Rightarrow> int" where
  "effectiveTtl self hit = (if hit_maxAge hit \<noteq> 0 then hit_maxAge hit else MAX_AGE self)"

definition stale :: "('k, 'v) LRUCache \<Rightarrow> ('k, 'v) LEntry \<Rightarrow> bool" where
  "stale self hit \<longleftrightarrow>
     effectiveTtl self hit \<noteq> 0 \<and> clock self - hit_now hit > effectiveTtl self hit"

text \<open>Example caches: \<open>ex_empty\<close> is built by the constructor with capacity 2, the value as
  the weight and a dispose callback, at clock 1000; \<open>ex_a\<close> is \<open>ex_empty\<close> after
  \<^verbatim>\<open>set(a, 1)\<close>; \<open>ex_ttl\<close> is \<open>ex_empty\<close> after \<^verbatim>\<open>maxAge = 100\<close>, \<^verbatim>\<open>set(a, 1)\<close> and 150
  milliseconds.\<close>

definition ex_options :: "(string, int) Options" where
  "ex_options = empty_Options\<lparr>opt_max := JNum 2, opt_length := Some (\<lambda>v k. v),
     opt_dispose := True\<rparr>"

definition ex_empty :: "(string, int) LRUCache" where
  "ex_empty =
     \<lparr>MAX' = Finite 2, LENGTH = 0, LENGTH_CALCULATOR = (\<lambda>v k. v), ALLOW_STALE = False,
      MAX_AGE = 0, DISPOSE = True, NO_DISPOSE_ON_SET = False, UPDATE_AGE_ON_GET = False,
      LRU_LIST = [], CACHE = [], heap = (\<lambda>n. None), next_id = 0, disposed = [],
      clock = 1000\<rparr>"

definition ex_a :: "(string, int) LRUCache" where
  "ex_a = ex_empty\<lparr>LENGTH := 1,
     heap := (\<lambda>n. None)(0 := Some \<lparr>hit_key = ''a'', hit_value = 1, hit_length = 1, hit_now = 0, hit_maxAge = 0\<rparr>),
     next_id := 1, LRU_LIST := [0], CACHE := [(''a'', 0)]\<rparr>"

definition ex_ttl :: "(string, int) LRUCache" where
  "ex_ttl = ex_empty\<lparr>LENGTH := 1, MAX_AGE := 100,
     heap := (\<lambda>n. None)(0 := Some \<lparr>hit_key = ''a'', hit_value = 1, hit_length = 1, hit_now = 1000, hit_maxAge = 100\<rparr>),
     next_id := 1, LRU_LIST := [0], CACHE := [(''a'', 0)], clock := 1150\<rparr>"

text \<open>What a read of a stale entry returns and leaves behind.\<close>

definition evicted_by_read ::
  "('k, 'v) LRUCache \<Rightarrow> 'k \<Rightarrow> nat \<Rightarrow> ('k, 'v) LEntry \<Rightarrow> 'v option \<times> ('k, 'v) LRUCache \<Rightarrow> bool" where
  "evicted_by_read self key node hit r \<longleftrightarrow>
     fst r = (if ALLOW_STALE self then Some (hit_value hit) else None) \<and>
     disposed (snd r) =
       (if DISPOSE self then disposed self @ [(key, hit_value hit)] else disposed self) \<and>
     map_of (CACHE (snd r)) key = None \<and> node \<notin> set (LRU_LIST (snd r)) \<and>
     key \<notin> set (keys (snd r)) \<and> LENGTH (snd r) = num_sub (LENGTH self) (hit_length hit) \<and>
     fst (has (snd r) key) = False"

text \<open>The arguments of the dispose calls made for a sequence of nodes.\<close>

definition dispose_args :: "('k, 'v) LRUCache \<Rightarrow> nat list \<Rightarrow> ('k \<times> 'v) list" where
  "dispose_args self nodes =
     map (\<lambda>hit. (hit_key hit, hit_value hit)) (List.map_filter (heap self) nodes)"

text \<open>The running total after the entries of the nodes \<open>ns\<close> have been evicted, the last
  of them first.\<close>

definition total_after :: "('k, 'v) LRUCache \<Rightarrow> nat list \<Rightarrow> int" where
  "total_after self ns = foldr (\<lambda>n t. num_sub t (weight self n)) ns (LENGTH self)"

text \<open>What \<^verbatim>\<open>trim\<close> does to a cache, in the words of the specification: \<open>k\<close> entries
  are kept, the entries after them are evicted from the tail towards the head with one
  dispose call each, every eviction happened while the total still exceeded the capacity,
  and at the end the total fits or the list is empty.\<close>

definition evicts_from_tail :: "('k, 'v) LRUCache \<Rightarrow> ('k, 'v) LRUCache \<Rightarrow> nat \<Rightarrow> bool" where
  "evicts_from_tail self s' k \<longleftrightarrow>
     k \<le> length (LRU_LIST self) \<and>
     LRU_LIST s' = take k (LRU_LIST self) \<and>
     set (map fst (CACHE s')) = set (keys s') \<and>
     disposed s' = disposed self @
       (if DISPOSE self then dispose_args self (rev (drop k (LRU_LIST self))) else []) \<and>
     length (dispose_args self (rev (drop k (LRU_LIST self)))) = length (LRU_LIST self) - k \<and>
     LENGTH s' = total_after self (drop k (LRU_LIST self)) \<and>
     (\<forall>j. k < j \<and> j \<le> length (LRU_LIST self) \<longrightarrow>
        gt (total_after self (drop j (LRU_LIST self))) (MAX' self)) \<and>
     (\<not> gt (LENGTH s') (MAX' self) \<or> LRU_LIST s' = [])"

text \<open>The number of evictions of the trim loop, from the running total, the capacity and
  the weights of the entries listed from the tail.\<close>

fun evict_count :: "int \<Rightarrow> bound \<Rightarrow> int list \<Rightarrow> nat" where
  "evict_count tot cap [] = 0"
| "evict_count tot cap (w # ws) =
     (if gt tot cap then Suc (evict_count (num_sub tot w) cap ws) else 0)"

text \<open>\<open>ex_unit\<close> is built by the constructor with capacity 2, unit weights and a dispose
  callback; \<open>ex_ab\<close> is \<open>ex_unit\<close> after \<^verbatim>\<open>set(a, 1); set(b, 2)\<close>.\<close>

definition ex_unit :: "(string, int) LRUCache" where
  "ex_unit =
     \<lparr>MAX' = Finite 2, LENGTH = 0, LENGTH_CALCULATOR = naiveLength, ALLOW_STALE = False,
      MAX_AGE = 0, DISPOSE = True, NO_DISPOSE_ON_SET = False, UPDATE_AGE_ON_GET = False,
      LRU_LIST = [], CACHE = [], heap = (\<lambda>n. None), next_id = 0, disposed = [],
      clock = 1000\<rparr>"

definition ex_ab :: "(string, int) LRUCache" where
  "ex_ab = ex_unit\<lparr>LENGTH := 2,
     heap := (\<lambda>n. None)
       (0 := Some \<lparr>hit_key = ''a'', hit_value = 1, hit_length = 1, hit_now = 0, hit_maxAge = 0\<rparr>,
        1 := Some \<lparr>hit_key = ''b'', hit_value = 2, hit_length = 1, hit_now = 0, hit_maxAge = 0\<rparr>),
     next_id := 2, LRU_LIST := [1, 0], CACHE := [(''a'', 0), (''b'', 1)]\<rparr>"

text \<open>What the operations that visit a stale entry leave of its key.\<close>

definition evicted_by_visits :: "('k, 'v) LRUCache \<Rightarrow> 'k \<Rightarrow> nat \<Rightarrow> ('k, 'v) LEntry \<Rightarrow> bool" where
  "evicted_by_visits self key node hit \<longleftrightarrow>
     evicted_by_read self key node hit (LRUCache_get self key) \<and>
     evicted_by_read self key node hit (peek self key) \<and>
     map_of (CACHE (prune self)) key = None \<and>
     map_of (CACHE (snd (forEach self))) key = None \<and>
     map_of (CACHE (snd (rforEach self))) key = None"











text \<open>\<open>ex_age clk\<close> is built at clock \<open>clk\<close> by the constructor with capacity 2, unit
  weights, no default age and \<^verbatim>\<open>updateAgeOnGet\<close>; \<open>ex_age_ab\<close> is \<open>ex_age 1000\<close> after
  \<^verbatim>\<open>set(a, 1); set(b, 2)\<close>, 80 milliseconds and \<^verbatim>\<open>get(a)\<close>.\<close>

definition ex_age_options :: "(string, int) Options" where
  "ex_age_options = empty_Options\<lparr>opt_max := JNum 2, opt_updateAgeOnGet := True\<rparr>"

definition ex_age :: "int \<Rightarrow> (string, int) LRUCache" where
  "ex_age clk =
     \<lparr>MAX' = Finite 2, LENGTH = 0, LENGTH_CALCULATOR = naiveLength, ALLOW_STALE = False,
      MAX_AGE = 0, DISPOSE = False, NO_DISPOSE_ON_SET = False, UPDATE_AGE_ON_GET = True,
      LRU_LIST = [], CACHE = [], heap = (\<lambda>n. None), next_id = 0, disposed = [],
      clock = clk\<rparr>"

definition ex_age_ab :: "(string, int) LRUCache" where
  "ex_age_ab = (ex_age 1080)\<lparr>LENGTH := 2,
     heap := (\<lambda>n. None)
       (0 := Some \<lparr>hit_key = ''a'', hit_value = 1, hit_length = 1, hit_now = 1080, hit_maxAge = 0\<rparr>,
        1 := Some \<lparr>hit_key = ''b'', hit_value = 2, hit_length = 1, hit_now = 0, hit_maxAge = 0\<rparr>),
     next_id := 2, LRU_LIST := [0, 1], CACHE := [(''a'', 0), (''b'', 1)]\<rparr>"

section \<open>Sums and differences of weights\<close>

text \<open>Integers of magnitude up to \<open>2 ^ 53\<close> are doubles, so a sum or a difference in that
  range is exact.\<close>

lemma expo_small: "a < 2 ^ 53 \<Longrightarrow> expo a = 0"
  by (subst expo.simps) simp

lemma expo_53: "expo (2 ^ 53) = 1"
  by (subst expo.simps, simp add: expo_small)

lemma fl_exact: "\<bar>x\<bar> \<le> 2 ^ 53 \<Longrightarrow> fl x = x"
proof (cases "\<bar>x\<bar> < 2 ^ 53")
  case True
  then show ?thesis by (simp add: fl_def expo_small Let_def mult_sgn_abs)
next
  case False
  assume "\<bar>x\<bar> \<le> 2 ^ 53"
  with False have a: "\<bar>x\<bar> = 2 ^ 53" by simp
  have "fl x = sgn x * 2 ^ 53"
    unfolding fl_def a Let_def expo_53 by simp
  also have "\<dots> = sgn x * \<bar>x\<bar>" by (simp only: a)
  also have "\<dots> = x" by (simp add: mult_sgn_abs)
  finally show ?thesis .
qed

lemma num_add_exact: "\<bar>a + b\<bar> \<le> 2 ^ 53 \<Longrightarrow> num_add a b = a + b"
  by (simp add: num_add_def fl_exact)

lemma num_sub_exact: "\<bar>a - b\<bar> \<le> 2 ^ 53 \<Longrightarrow> num_sub a b = a - b"
  by (simp add: num_sub_def fl_exact)

section \<open>The structural invariant is kept by every operation\<close>

subsection \<open>Lists and sums\<close>

lemma filter_key_remove1:
  "distinct (map fst xs) \<Longrightarrow> (k, n) \<in> set xs \<Longrightarrow>
   filter (\<lambda>(k', m). k' \<noteq> k) xs = remove1 (k, n) xs"
proof (induction xs)
  case Nil then show ?case by simp
next
  case (Cons x xs)
  obtain k' m where x: "x = (k', m)" by (cases x)
  show ?case
  proof (cases "k' = k")
    case True
    from Cons.prems x True have notin: "k \<notin> fst ` set xs" by simp
    then have "(k, n) \<notin> set xs" by force
    with Cons.prems x True have "x = (k, n)" by simp
    moreover from notin have "filter (\<lambda>(k', m). k' \<noteq> k) xs = xs"
      by (force simp: filter_id_conv)
    ultimately show ?thesis by simp
  next
    case False
    with Cons x show ?thesis by auto
  qed
qed

lemma map_snd_remove1:
  "distinct (map snd xs) \<Longrightarrow> (k, n) \<in> set xs \<Longrightarrow>
   map snd (remove1 (k, n) xs) = remove1 n (map snd xs)"
  by (induction xs) force+

subsection \<open>Deleting a node\<close>

lemma del_None [simp]: "del self None = self"
  by (simp add: del_def)

lemma del_dangling: "heap self n = None \<Longrightarrow> del self (Some n) = self"
  by (simp add: del_def)

lemma del_Some:
  assumes "heap self n = Some hit"
  shows "CACHE (del self (Some n)) = filter (\<lambda>(k, m). k \<noteq> hit_key hit) (CACHE self)"
    and "LRU_LIST (del self (Some n)) = remove1 n (LRU_LIST self)"
    and "LENGTH (del self (Some n)) = num_sub (LENGTH self) (hit_length hit)"
    and "disposed (del self (Some n)) =
           (if DISPOSE self then disposed self @ [(hit_key hit, hit_value hit)] else disposed self)"
  using assms by (simp_all add: del_def call_dispose_def removeNode_def Let_def)

lemma del_frame [simp]:
  "heap (del self node) = heap self" "next_id (del self node) = next_id self"
  "MAX' (del self node) = MAX' self" "MAX_AGE (del self node) = MAX_AGE self"
  "DISPOSE (del self node) = DISPOSE self" "ALLOW_STALE (del self node) = ALLOW_STALE self"
  "clock (del self node) = clock self" "LENGTH_CALCULATOR (del self node) = LENGTH_CALCULATOR self"
  "NO_DISPOSE_ON_SET (del self node) = NO_DISPOSE_ON_SET self"
  "UPDATE_AGE_ON_GET (del self node) = UPDATE_AGE_ON_GET self"
  by (simp_all add: del_def call_dispose_def Let_def split: option.splits)

lemma weight_del [simp]: "weight (del self node) = weight self"
  by (simp add: weight_def fun_eq_iff)

lemma cache_inv_del:
  assumes inv: "cache_inv self" and n: "n \<in> set (LRU_LIST self)"
  shows "cache_inv (del self (Some n))"
proof -
  from inv n have "n \<in> set (map snd (CACHE self))" by (simp add: cache_inv_def)
  then obtain k where kn: "(k, n) \<in> set (CACHE self)" by auto
  with inv obtain hit where hit: "heap self n = Some hit" "hit_key hit = k"
    by (auto simp: cache_inv_def)
  from inv have d1: "distinct (map fst (CACHE self))" and d2: "distinct (map snd (CACHE self))"
    and d3: "distinct (LRU_LIST self)" by (simp_all add: cache_inv_def)
  have C: "CACHE (del self (Some n)) = remove1 (k, n) (CACHE self)"
    using del_Some(1)[OF hit(1)] hit(2) filter_key_remove1[OF d1 kn] by simp
  have L: "LRU_LIST (del self (Some n)) = remove1 n (LRU_LIST self)"
    using del_Some(2)[OF hit(1)] .
  have S: "map snd (remove1 (k, n) (CACHE self)) = remove1 n (map snd (CACHE self))"
    using map_snd_remove1[OF d2 kn] .
  have "distinct (map fst (remove1 (k, n) (CACHE self)))"
    using d1 by (simp add: C distinct_map_filter filter_key_remove1[OF d1 kn, symmetric])
  moreover have "distinct (map snd (remove1 (k, n) (CACHE self)))"
    using d2 by (simp add: S)
  moreover have "distinct (remove1 n (LRU_LIST self))" using d3 by simp
  moreover have "set (map snd (remove1 (k, n) (CACHE self))) = set (remove1 n (LRU_LIST self))"
    using inv d2 d3 by (simp only: S set_remove1_eq) (simp add: cache_inv_def)
  moreover have "\<forall>(k', m) \<in> set (remove1 (k, n) (CACHE self)).
       \<exists>h. heap self m = Some h \<and> hit_key h = k'"
    using inv set_remove1_subset[of "(k, n)" "CACHE self"] unfolding cache_inv_def by blast
  moreover have "\<forall>m \<in> set (remove1 n (LRU_LIST self)). m < next_id self"
    using inv set_remove1_subset[of n "LRU_LIST self"] unfolding cache_inv_def by blast
  ultimately show ?thesis
    unfolding cache_inv_def by (simp add: C L)
qed

lemma inv_node_entry:
  assumes "cache_inv self" "n \<in> set (LRU_LIST self)"
  shows "\<exists>hit. heap self n = Some hit \<and> (hit_key hit, n) \<in> set (CACHE self)"
proof -
  from assms have "n \<in> set (map snd (CACHE self))" by (simp add: cache_inv_def)
  then obtain k where kn: "(k, n) \<in> set (CACHE self)" by auto
  with assms(1) obtain hit where "heap self n = Some hit" "hit_key hit = k"
    by (auto simp: cache_inv_def)
  with kn show ?thesis by auto
qed

lemma inv_cache_node:
  assumes "cache_inv self" "map_of (CACHE self) key = Some n"
  shows "n \<in> set (LRU_LIST self)" and "\<exists>hit. heap self n = Some hit \<and> hit_key hit = key"
proof -
  from assms(2) have kn: "(key, n) \<in> set (CACHE self)" by (rule map_of_SomeD)
  then have "n \<in> set (map snd (CACHE self))" by force
  with assms(1) show "n \<in> set (LRU_LIST self)" by (simp add: cache_inv_def)
  from assms(1) kn show "\<exists>hit. heap self n = Some hit \<and> hit_key hit = key"
    by (auto simp: cache_inv_def)
qed

lemma LRU_LIST_del:
  "LRU_LIST (del self (Some n)) =
     (if heap self n = None then LRU_LIST self else remove1 n (LRU_LIST self))"
  by (auto simp: del_dangling del_Some(2))

lemma trim_loop_inv:
  "cache_inv self \<Longrightarrow> distinct ws \<Longrightarrow> set ws \<subseteq> set (LRU_LIST self) \<Longrightarrow>
   cache_inv (trim_loop self ws)"
proof (induction ws arbitrary: self)
  case Nil then show ?case by simp
next
  case (Cons w ws)
  show ?case
  proof (cases "gt (LENGTH self) (MAX' self)")
    case False with Cons.prems show ?thesis by simp
  next
    case True
    from Cons.prems have w: "w \<in> set (LRU_LIST self)" by simp
    have i: "cache_inv (del self (Some w))" using Cons.prems(1) w by (rule cache_inv_del)
    from inv_node_entry[OF Cons.prems(1) w]
    have "LRU_LIST (del self (Some w)) = remove1 w (LRU_LIST self)"
      by (auto simp: LRU_LIST_del)
    moreover from Cons.prems have "distinct (LRU_LIST self)" by (simp add: cache_inv_def)
    ultimately have "set ws \<subseteq> set (LRU_LIST (del self (Some w)))"
      using Cons.prems(2,3) by (auto simp: set_remove1_eq)
    with Cons.IH[OF i] Cons.prems(2) True show ?thesis by simp
  qed
qed

lemma cache_inv_trim: "cache_inv self \<Longrightarrow> cache_inv (trim self)"
proof -
  assume inv: "cache_inv self"
  then have "distinct (rev (LRU_LIST self))" by (simp add: cache_inv_def)
  with inv show ?thesis by (simp add: trim_def trim_loop_inv)
qed

lemma cache_inv_cong:
  "CACHE t = CACHE s \<Longrightarrow> LRU_LIST t = LRU_LIST s \<Longrightarrow> heap t = heap s \<Longrightarrow>
   next_id t = next_id s \<Longrightarrow> cache_inv t = cache_inv s"
  by (simp add: cache_inv_def)



lemma cache_inv_heap_upd:
  assumes inv: "cache_inv self" and n: "n \<in> set (LRU_LIST self)"
    and h: "heap self n = Some h" and key: "hit_key h' = hit_key h"
    and t: "CACHE t = CACHE self" "LRU_LIST t = LRU_LIST self" "next_id t = next_id self"
      "heap t = (heap self)(n := Some h')"
  shows "cache_inv t"
proof -
  have "\<forall>(k, m) \<in> set (CACHE t). \<exists>hit. heap t m = Some hit \<and> hit_key hit = k"
    using inv h key unfolding cache_inv_def t by fastforce
  then show ?thesis using inv unfolding cache_inv_def by (simp add: t)
qed

lemma cache_inv_unshiftNode:
  assumes inv: "cache_inv self" and n: "n \<in> set (LRU_LIST self)"
    and t: "CACHE t = CACHE self" "LRU_LIST t = unshiftNode (LRU_LIST self) n"
      "next_id t = next_id self" "heap t = heap self"
  shows "cache_inv t"
proof -
  from inv have d: "distinct (LRU_LIST self)" by (simp add: cache_inv_def)
  have s: "set (n # remove1 n (LRU_LIST self)) = set (LRU_LIST self)"
    using n d by (auto simp: set_remove1_eq)
  show ?thesis using inv d s unfolding cache_inv_def
    by (simp add: t unshiftNode_def)
qed

lemma cache_inv_get: "cache_inv self \<Longrightarrow> cache_inv (snd (get self key doUse))"
proof -
  assume inv: "cache_inv self"
  show ?thesis
  proof (cases "map_of (CACHE self) key")
    case None then show ?thesis using inv by (simp add: get_def)
  next
    case (Some n)
    from inv_cache_node[OF inv Some] obtain hit where n: "n \<in> set (LRU_LIST self)"
      and hit: "heap self n = Some hit" by auto
    show ?thesis
    proof (cases "isStale self (Some hit)")
      case True
      with Some hit cache_inv_del[OF inv n] show ?thesis by (simp add: get_def Let_def)
    next
      case False
      let ?s1 = "if UPDATE_AGE_ON_GET self
                 then self\<lparr>heap := (heap self)(n := Some (hit\<lparr>hit_now := Date_now self\<rparr>))\<rparr>
                 else self"
      have i1: "cache_inv ?s1"
        using inv cache_inv_heap_upd[OF inv n hit, of "hit\<lparr>hit_now := Date_now self\<rparr>"
            "self\<lparr>heap := (heap self)(n := Some (hit\<lparr>hit_now := Date_now self\<rparr>))\<rparr>"]
        by simp
      have n1: "n \<in> set (LRU_LIST ?s1)" using n by simp
      have "cache_inv (?s1\<lparr>LRU_LIST := unshiftNode (LRU_LIST ?s1) n\<rparr>)"
        by (rule cache_inv_unshiftNode[OF i1 n1]) simp_all
      with False Some hit inv show ?thesis
        by (cases doUse; cases "UPDATE_AGE_ON_GET self") (simp_all add: get_def Let_def)
    qed
  qed
qed

lemma cache_inv_insert:
  assumes inv: "cache_inv self" and new: "map_of (CACHE self) key = None"
    and key: "hit_key hit = key"
    and t: "CACHE t = CACHE self @ [(key, next_id self)]"
      "LRU_LIST t = next_id self # LRU_LIST self"
      "heap t = (heap self)(next_id self := Some hit)"
      "next_id t = Suc (next_id self)"
  shows "cache_inv t"
proof -
  let ?n = "next_id self"
  from inv have fresh: "?n \<notin> set (LRU_LIST self)" by (auto simp: cache_inv_def)
  with inv have fresh': "?n \<notin> snd ` set (CACHE self)" by (simp add: cache_inv_def)
  from new have knew: "key \<notin> fst ` set (CACHE self)" by (simp add: map_of_eq_None_iff)
  have ent: "\<forall>(k, m) \<in> set (CACHE t). \<exists>h. heap t m = Some h \<and> hit_key h = k"
  proof -
    have "\<exists>h. heap t m = Some h \<and> hit_key h = k" if km: "(k, m) \<in> set (CACHE t)" for k m
    proof (cases "(k, m) = (key, ?n)")
      case True then show ?thesis using key by (simp add: t)
    next
      case False
      with km have old: "(k, m) \<in> set (CACHE self)" by (auto simp: t)
      with fresh' have "m \<noteq> ?n" by force
      with inv old show ?thesis by (auto simp: cache_inv_def t)
    qed
    then show ?thesis by auto
  qed
  have bound: "\<forall>m \<in> set (LRU_LIST t). m < next_id t"
    using inv by (auto simp: cache_inv_def t less_Suc_eq)
  from inv fresh fresh' knew have
    "distinct (map fst (CACHE t))" "distinct (map snd (CACHE t))" "distinct (LRU_LIST t)"
    "set (map snd (CACHE t)) = set (LRU_LIST t)"
    by (auto simp: cache_inv_def t)
  with ent bound show ?thesis unfolding cache_inv_def by blast
qed

lemma cache_inv_call_dispose [simp]: "cache_inv (call_dispose self key val) = cache_inv self"
  by (rule cache_inv_cong) (simp_all add: call_dispose_def)

subsection \<open>The branches of set\<close>

lemma set_guard:
  "(truthy (if truthy m then m else JNum a) \<and> \<not> is_number (if truthy m then m else JNum a)) =
   (truthy m \<and> \<not> is_number m)"
  by (cases m) auto

lemma LRUCache_set_throw:
  "truthy maxAge0 \<Longrightarrow> \<not> is_number maxAge0 \<Longrightarrow>
   LRUCache_set self key val maxAge0 = (Inl (TypeError ''maxAge must be a number''), self)"
  by (simp add: LRUCache_set_def)

lemma LRUCache_set_oversized_old:
  "\<not> (truthy maxAge0 \<and> \<not> is_number maxAge0) \<Longrightarrow> map_of (CACHE self) key = Some node \<Longrightarrow>
   gt (LENGTH_CALCULATOR self val key) (MAX' self) \<Longrightarrow>
   LRUCache_set self key val maxAge0 = (Inr False, del self (Some node))"
  by (cases "truthy maxAge0") (simp_all add: LRUCache_set_def set_guard Let_def)

lemma LRUCache_set_oversized_new:
  "\<not> (truthy maxAge0 \<and> \<not> is_number maxAge0) \<Longrightarrow> map_of (CACHE self) key = None \<Longrightarrow>
   gt (LENGTH_CALCULATOR self val key) (MAX' self) \<Longrightarrow>
   LRUCache_set self key val maxAge0 =
     (Inr False, if DISPOSE self then call_dispose self key val else self)"
  by (cases "truthy maxAge0") (simp_all add: LRUCache_set_def set_guard Let_def new_LEntry_def)

lemma LRUCache_set_update:
  "\<not> (truthy maxAge0 \<and> \<not> is_number maxAge0) \<Longrightarrow> map_of (CACHE self) key = Some node \<Longrightarrow>
   \<not> gt (LENGTH_CALCULATOR self val key) (MAX' self) \<Longrightarrow> heap self node = Some item \<Longrightarrow>
   LRUCache_set self key val maxAge0 =
     (Inr True, trim (snd (LRUCache_get
        (self\<lparr>disposed := (if DISPOSE self \<and> \<not> NO_DISPOSE_ON_SET self
                             then disposed self @ [(key, hit_value item)] else disposed self),
               heap := (heap self)(node := Some (item\<lparr>hit_now := set_now self maxAge0,
                   hit_maxAge := set_maxAge_arg self maxAge0, hit_value := val,
                   hit_length := LENGTH_CALCULATOR self val key\<rparr>)),
               LENGTH := num_add (LENGTH self)
                 (num_sub (LENGTH_CALCULATOR self val key) (hit_length item))\<rparr>)
        key)))"
  by (cases "truthy maxAge0")
     (simp_all add: LRUCache_set_def set_guard Let_def call_dispose_def set_now_def
        set_maxAge_arg_def)

lemma LRUCache_set_insert:
  "\<not> (truthy maxAge0 \<and> \<not> is_number maxAge0) \<Longrightarrow> map_of (CACHE self) key = None \<Longrightarrow>
   \<not> gt (LENGTH_CALCULATOR self val key) (MAX' self) \<Longrightarrow>
   LRUCache_set self key val maxAge0 =
     (Inr True, trim
        (self\<lparr>LENGTH := num_add (LENGTH self) (LENGTH_CALCULATOR self val key),
               heap := (heap self)(next_id self := Some
                 \<lparr>hit_key = key, hit_value = val, hit_length = LENGTH_CALCULATOR self val key,
                  hit_now = set_now self maxAge0, hit_maxAge = set_maxAge_arg self maxAge0\<rparr>),
               next_id := Suc (next_id self),
               LRU_LIST := next_id self # LRU_LIST self,
               CACHE := CACHE self @ [(key, next_id self)]\<rparr>))"
  by (cases "truthy maxAge0")
     (simp_all add: LRUCache_set_def set_guard Let_def new_LEntry_def unshift_def set_now_def
        set_maxAge_arg_def)

lemma cache_inv_LRUCache_set:
  assumes inv: "cache_inv self"
  shows "cache_inv (snd (LRUCache_set self key val maxAge0))"
proof (cases "truthy maxAge0 \<and> \<not> is_number maxAge0")
  case True
  then show ?thesis using inv by (simp add: LRUCache_set_throw)
next
  case ok: False
  let ?len = "LENGTH_CALCULATOR self val key"
  show ?thesis
  proof (cases "map_of (CACHE self) key")
    case None
    show ?thesis
    proof (cases "gt ?len (MAX' self)")
      case True
      show ?thesis using inv by (simp add: LRUCache_set_oversized_new[OF ok None True])
    next
      case False
      let ?hit = "\<lparr>hit_key = key, hit_value = val, hit_length = ?len,
                   hit_now = set_now self maxAge0, hit_maxAge = set_maxAge_arg self maxAge0\<rparr>"
      show ?thesis unfolding LRUCache_set_insert[OF ok None False] snd_conv
        by (rule cache_inv_trim, rule cache_inv_insert[OF inv None, of ?hit]) simp_all
    qed
  next
    case (Some n)
    from inv_cache_node[OF inv Some] obtain item where n: "n \<in> set (LRU_LIST self)"
      and item: "heap self n = Some item" by auto
    show ?thesis
    proof (cases "gt ?len (MAX' self)")
      case True
      show ?thesis using cache_inv_del[OF inv n]
        by (simp add: LRUCache_set_oversized_old[OF ok Some True])
    next
      case False
      let ?item = "item\<lparr>hit_now := set_now self maxAge0,
                    hit_maxAge := set_maxAge_arg self maxAge0, hit_value := val,
                    hit_length := ?len\<rparr>"
      show ?thesis unfolding LRUCache_set_update[OF ok Some False item] snd_conv LRUCache_get_def
        by (rule cache_inv_trim, rule cache_inv_get,
            rule cache_inv_heap_upd[OF inv n item, of ?item]) simp_all
    qed
  qed
qed

subsection \<open>The other operations\<close>

lemma cache_inv_reset: "cache_inv (reset self)"
  by (simp add: reset_def cache_inv_def Let_def)

lemma cache_inv_constructor: "constructor arg clk = Inr self \<Longrightarrow> cache_inv self"
  by (auto simp: constructor_def Let_def cache_inv_reset split: if_splits)

lemma cache_inv_set_max: "cache_inv self \<Longrightarrow> cache_inv (snd (set_max self mL))"
proof -
  assume inv: "cache_inv self"
  have "cache_inv (self\<lparr>MAX' := or_Infinity mL\<rparr>) = cache_inv self"
    by (rule cache_inv_cong) simp_all
  with inv show ?thesis by (simp add: set_max_def cache_inv_trim)
qed

lemma cache_inv_set_maxAge: "cache_inv self \<Longrightarrow> cache_inv (snd (set_maxAge self mA))"
proof -
  assume inv: "cache_inv self"
  have "cache_inv (self\<lparr>MAX_AGE := n\<rparr>) = cache_inv self" for n
    by (rule cache_inv_cong) simp_all
  with inv show ?thesis by (cases mA) (simp_all add: set_maxAge_def cache_inv_trim)
qed

lemma cache_inv_set_allowStale: "cache_inv self \<Longrightarrow> cache_inv (set_allowStale self b)"
  unfolding set_allowStale_def by (subst cache_inv_cong[of _ self]) simp_all

lemma cache_inv_pop: "cache_inv self \<Longrightarrow> cache_inv (snd (pop self))"
  by (cases "LRU_LIST self" rule: rev_cases) (simp_all add: pop_def tail_def cache_inv_del split: list.splits)

lemma cache_inv_LRUCache_del: "cache_inv self \<Longrightarrow> cache_inv (LRUCache_del self key)"
  by (cases "map_of (CACHE self) key")
     (simp_all add: LRUCache_del_def cache_inv_del inv_cache_node(1))

lemma cache_inv_prune_loop: "cache_inv self \<Longrightarrow> cache_inv (prune_loop self ks)"
  by (induction ks arbitrary: self) (simp_all add: cache_inv_get)

lemma cache_inv_prune: "cache_inv self \<Longrightarrow> cache_inv (prune self)"
  by (simp add: prune_def cache_inv_prune_loop)

lemma cache_inv_load_loop: "cache_inv self \<Longrightarrow> cache_inv (snd (load_loop self now arr))"
proof (induction arr arbitrary: self)
  case Nil then show ?case by simp
next
  case (Cons hit rest)
  have a: "cache_inv (snd (LRUCache_set self (entry_k hit) (entry_v hit) m))" for m
    using Cons.prems by (rule cache_inv_LRUCache_set)
  show ?case
  proof (cases "entry_e hit = 0")
    case True
    obtain r s1 where r: "LRUCache_set self (entry_k hit) (entry_v hit) JUndefined = (r, s1)"
      by (cases "LRUCache_set self (entry_k hit) (entry_v hit) JUndefined")
    with a[of JUndefined] have "cache_inv s1" by simp
    with True r Cons.IH show ?thesis by (cases r) (simp_all add: Let_def)
  next
    case False
    obtain r s1 where r: "LRUCache_set self (entry_k hit) (entry_v hit) (JNum (entry_e hit - now)) = (r, s1)"
      by (cases "LRUCache_set self (entry_k hit) (entry_v hit) (JNum (entry_e hit - now))")
    with a[of "JNum (entry_e hit - now)"] have "cache_inv s1" by simp
    with False r Cons.IH Cons.prems show ?thesis by (cases r) (simp_all add: Let_def)
  qed
qed

lemma cache_inv_load: "cache_inv (snd (load self arr))"
  by (simp add: load_def Let_def cache_inv_load_loop cache_inv_reset)

lemma forEachStep_cases:
  "fst (forEachStep self w) = self \<or> fst (forEachStep self w) = del self (Some w)"
  by (simp add: forEachStep_def Let_def)

lemma cache_inv_forEach_loop:
  "cache_inv self \<Longrightarrow> distinct ws \<Longrightarrow> set ws \<subseteq> set (LRU_LIST self) \<Longrightarrow>
   cache_inv (snd (forEach_loop self ws))"
proof (induction ws arbitrary: self)
  case Nil then show ?case by simp
next
  case (Cons w ws)
  obtain s1 call where st: "forEachStep self w = (s1, call)" by (cases "forEachStep self w")
  from Cons.prems have w: "w \<in> set (LRU_LIST self)" by simp
  from Cons.prems have d: "distinct (LRU_LIST self)" by (simp add: cache_inv_def)
  from forEachStep_cases[of self w] st have "s1 = self \<or> s1 = del self (Some w)" by simp
  then have "cache_inv s1 \<and> set ws \<subseteq> set (LRU_LIST s1)"
  proof
    assume "s1 = self" with Cons.prems show ?thesis by simp
  next
    assume s1: "s1 = del self (Some w)"
    from inv_node_entry[OF Cons.prems(1) w]
    have "LRU_LIST s1 = remove1 w (LRU_LIST self)" by (auto simp: s1 LRU_LIST_del)
    with Cons.prems d have "set ws \<subseteq> set (LRU_LIST s1)" by (auto simp: set_remove1_eq)
    with cache_inv_del[OF Cons.prems(1) w] s1 show ?thesis by simp
  qed
  with Cons.IH[of s1] Cons.prems(2) have "cache_inv (snd (forEach_loop s1 ws))" by simp
  with st show ?case by (auto split: prod.splits)
qed

lemma cache_inv_forEach: "cache_inv self \<Longrightarrow> cache_inv (snd (forEach self))"
proof -
  assume inv: "cache_inv self"
  then have "distinct (LRU_LIST self)" by (simp add: cache_inv_def)
  with inv show ?thesis by (simp add: forEach_def cache_inv_forEach_loop)
qed

lemma cache_inv_rforEach: "cache_inv self \<Longrightarrow> cache_inv (snd (rforEach self))"
proof -
  assume inv: "cache_inv self"
  then have "distinct (rev (LRU_LIST self))" by (simp add: cache_inv_def)
  with inv show ?thesis by (simp add: rforEach_def cache_inv_forEach_loop)
qed

lemma relength_simps [simp]:
  "hit_key (relength lC hit) = hit_key hit"
  "hit_value (relength lC hit) = hit_value hit"
  "hit_length (relength lC hit) = lC (hit_value hit) (hit_key hit)"
  "relength lC (relength lC hit) = relength lC hit"
  by (simp_all add: relength_def)

lemma relength_loop_frame [simp]:
  "CACHE (relength_loop self ns) = CACHE self"
  "LRU_LIST (relength_loop self ns) = LRU_LIST self"
  "next_id (relength_loop self ns) = next_id self"
  "LENGTH_CALCULATOR (relength_loop self ns) = LENGTH_CALCULATOR self"
  by (induction ns arbitrary: self; simp add: Let_def split: option.splits)+

lemma relength_loop_heap:
  "heap (relength_loop self ns) n =
     (if n \<in> set ns then map_option (relength (LENGTH_CALCULATOR self)) (heap self n)
      else heap self n)"
proof (induction ns arbitrary: self)
  case Nil then show ?case by simp
next
  case (Cons m ns)
  show ?case
  proof (cases "heap self m")
    case None
    with Cons.IH[of self] show ?thesis by auto
  next
    case (Some hit)
    let ?s1 = "self\<lparr>heap := (heap self)(m := Some (relength (LENGTH_CALCULATOR self) hit)),
                    LENGTH := num_add (LENGTH self)
                      (LENGTH_CALCULATOR self (hit_value hit) (hit_key hit))\<rparr>"
    have "relength_loop self (m # ns) = relength_loop ?s1 ns"
      using Some by (simp add: Let_def relength_def)
    with Cons.IH[of ?s1] Some show ?thesis by auto
  qed
qed

lemma cache_inv_set_lengthCalculator:
  assumes inv: "cache_inv self"
  shows "cache_inv (set_lengthCalculator self lC0)"
proof -
  define lC where "lC = (case lC0 of None \<Rightarrow> naiveLength | Some f \<Rightarrow> f)"
  let ?s0 = "self\<lparr>LENGTH_CALCULATOR := lC, LENGTH := 0\<rparr>"
  let ?t = "relength_loop ?s0 (LRU_LIST self)"
  from inv have d: "distinct (LRU_LIST self)" by (simp add: cache_inv_def)
  have hp: "heap ?t n = (if n \<in> set (LRU_LIST self) then map_option (relength lC) (heap self n)
                         else heap self n)" for n
    using relength_loop_heap[of ?s0 "LRU_LIST self" n] by simp
  have ent: "\<forall>(k, n) \<in> set (CACHE ?t). \<exists>hit. heap ?t n = Some hit \<and> hit_key hit = k"
    using inv unfolding cache_inv_def by (fastforce simp: hp)
  have "cache_inv ?t"
    using inv ent unfolding cache_inv_def by simp
  then have "cache_inv (trim ?t)" by (rule cache_inv_trim)
  moreover have "cache_inv (trim self)" using inv by (rule cache_inv_trim)
  ultimately show ?thesis by (simp add: set_lengthCalculator_def Let_def lC_def)
qed

lemma cache_inv_exec: "cache_inv self \<Longrightarrow> cache_inv (exec self op)"
proof (cases op)
  case (Tick t)
  assume "cache_inv self"
  moreover have "cache_inv (self\<lparr>clock := t\<rparr>) = cache_inv self"
    by (rule cache_inv_cong) simp_all
  ultimately show ?thesis using Tick by simp
qed (simp_all add: cache_inv_LRUCache_set LRUCache_get_def peek_def cache_inv_get has_def
      cache_inv_LRUCache_del cache_inv_pop cache_inv_reset cache_inv_prune cache_inv_load
      cache_inv_forEach cache_inv_rforEach cache_inv_set_max cache_inv_set_maxAge
      cache_inv_set_allowStale cache_inv_set_lengthCalculator split: option.splits)

lemma cache_inv_run: "cache_inv self \<Longrightarrow> cache_inv (foldl exec self ops)"
  by (induction ops arbitrary: self) (simp_all add: cache_inv_exec)

lemma toArray_inv:
  assumes "cache_inv self"
  shows "toArray self = map (\<lambda>n. the (heap self n)) (LRU_LIST self)"
proof -
  have "\<forall>n \<in> set (LRU_LIST self). heap self n \<noteq> None"
    using inv_node_entry[OF assms] by auto
  then have "filter (\<lambda>n. heap self n \<noteq> None) (LRU_LIST self) = LRU_LIST self"
    by (simp add: filter_id_conv)
  then show ?thesis by (simp add: toArray_def List.map_filter_def comp_def)
qed

lemma cache_inv_same_keys:
  assumes inv: "cache_inv self"
  shows "same_keys self"
proof -
  note ta = toArray_inv[OF inv]
  have k: "keys self = map (\<lambda>n. hit_key (the (heap self n))) (LRU_LIST self)"
    by (simp add: keys_def ta comp_def)
  have sub1: "k \<in> set (keys self)" if "(k, n) \<in> set (CACHE self)" for k n
  proof -
    from that have "map_of (CACHE self) k = Some n"
      using inv by (simp add: cache_inv_def)
    from inv_cache_node[OF inv this] show ?thesis by (force simp: k)
  qed
  have sub2: "k \<in> fst ` set (CACHE self)" if "k \<in> set (keys self)" for k
  proof -
    from that obtain n where n: "n \<in> set (LRU_LIST self)" "k = hit_key (the (heap self n))"
      by (auto simp: k)
    from inv_node_entry[OF inv n(1)] n(2) show ?thesis by force
  qed
  have keyset: "set (map fst (CACHE self)) = set (keys self)"
    using sub1 sub2 by auto
  have inj: "inj_on (\<lambda>n. hit_key (the (heap self n))) (set (LRU_LIST self))"
  proof (rule inj_onI)
    fix n m assume n: "n \<in> set (LRU_LIST self)" and m: "m \<in> set (LRU_LIST self)"
      and eq: "hit_key (the (heap self n)) = hit_key (the (heap self m))"
    from inv_node_entry[OF inv n] have a: "(hit_key (the (heap self n)), n) \<in> set (CACHE self)"
      by auto
    from inv_node_entry[OF inv m] have b: "(hit_key (the (heap self m)), m) \<in> set (CACHE self)"
      by auto
    from inv have "distinct (map fst (CACHE self))" by (simp add: cache_inv_def)
    with a b eq show "n = m" by (metis map_of_is_SomeI option.inject)
  qed
  have dk: "distinct (keys self)"
    using inv inj by (simp add: k distinct_map cache_inv_def)
  have len: "length (CACHE self) = length (LRU_LIST self)"
  proof -
    from inv have "distinct (map snd (CACHE self))" "distinct (LRU_LIST self)"
      "set (map snd (CACHE self)) = set (LRU_LIST self)" by (simp_all add: cache_inv_def)
    then have "length (map snd (CACHE self)) = length (LRU_LIST self)"
      by (metis distinct_card)
    then show ?thesis by simp
  qed
  from keyset dk len inv show ?thesis
    by (simp add: same_keys_def ta cache_inv_def)
qed


subsection \<open>The example caches are reached from the constructor\<close>

lemma ex_empty_constructed: "constructor (OptArg ex_options) 1000 = Inr ex_empty"
  by (simp add: constructor_def ex_options_def empty_Options_def ex_empty_def reset_def)

lemma ex_a_reached: "exec ex_empty (Op_set ''a'' 1 JUndefined) = ex_a"
  by (simp add: ex_a_def ex_empty_def LRUCache_set_def Let_def new_LEntry_def unshift_def trim_def
      num_add_exact)

lemma ex_a_inv: "cache_inv ex_a"
  using cache_inv_exec[OF cache_inv_constructor[OF ex_empty_constructed], of "Op_set ''a'' 1 JUndefined"]
  by (simp only: ex_a_reached)

lemma ex_ttl_reached:
  "foldl exec ex_empty [Op_maxAge (JNum 100), Op_set ''a'' 1 JUndefined, Tick 1150] = ex_ttl"
  by (simp add: ex_ttl_def ex_empty_def set_maxAge_def LRUCache_set_def Let_def new_LEntry_def
      unshift_def trim_def Date_now_def num_add_exact)

lemma ex_ttl_inv: "cache_inv ex_ttl"
  using cache_inv_run[OF cache_inv_constructor[OF ex_empty_constructed]]
  by (simp only: ex_ttl_reached[symmetric])

section \<open>Oversized values\<close>

subsection \<open>A present key loses its entry\<close>

lemma isStale_stale: "isStale self (Some hit) = stale self hit"
  by (auto simp: isStale_def stale_def effectiveTtl_def Date_now_def Let_def)

lemma map_of_filter_key:
  "map_of (filter (\<lambda>(k, m). k \<noteq> key) xs) key' = (if key' = key then None else map_of xs key')"
  by (induction xs) auto

text \<open>
  Claim C1. For every cache (satisfying the structural invariant) and every key present in
  it, \<^verbatim>\<open>set(key, value)\<close> with a weight above the capacity returns false without throwing,
  removes the stored entry of the key from the index and from the list, and inserts nothing:
  the heap is unchanged and the list is the old list without the node of the key.
\<close>

theorem set_oversized_existing:
  assumes inv: "cache_inv self" and node: "map_of (CACHE self) key = Some node"
    and big: "gt (LENGTH_CALCULATOR self val key) (MAX' self)"
  shows "\<exists>old. heap self node = Some old \<and>
     fst (LRUCache_set self key val JUndefined) = Inr False \<and>
     (let s' = snd (LRUCache_set self key val JUndefined)
      in map_of (CACHE s') key = None \<and> key \<notin> set (keys s') \<and> node \<notin> set (LRU_LIST s') \<and>
         LRU_LIST s' = remove1 node (LRU_LIST self) \<and> heap s' = heap self \<and>
         set (CACHE s') \<subseteq> set (CACHE self) \<and>
         LENGTH s' = num_sub (LENGTH self) (hit_length old))"
proof -
  from inv_cache_node[OF inv node] obtain old where n: "node \<in> set (LRU_LIST self)"
    and old: "heap self node = Some old" "hit_key old = key" by auto
  have eq: "LRUCache_set self key val JUndefined = (Inr False, del self (Some node))"
    by (rule LRUCache_set_oversized_old[OF _ node big]) simp
  let ?s = "del self (Some node)"
  have i: "cache_inv ?s" by (rule cache_inv_del[OF inv n])
  have c: "map_of (CACHE ?s) key = None"
    by (simp add: del_Some(1)[OF old(1)] old(2) map_of_filter_key)
  then have "key \<notin> set (map fst (CACHE ?s))" by (simp add: map_of_eq_None_iff)
  with cache_inv_same_keys[OF i] have k: "key \<notin> set (keys ?s)" by (simp add: same_keys_def)
  from inv have "distinct (LRU_LIST self)" by (simp add: cache_inv_def)
  then have l: "node \<notin> set (LRU_LIST ?s)" by (simp add: del_Some(2)[OF old(1)])
  have "set (CACHE ?s) \<subseteq> set (CACHE self)" by (auto simp: del_Some(1)[OF old(1)])
  with c k l old show ?thesis by (simp add: eq del_Some[OF old(1)])
qed

theorem set_oversized_existing_witness:
  "cache_inv ex_a \<and> map_of (CACHE ex_a) ''a'' = Some 0 \<and>
   gt (LENGTH_CALCULATOR ex_a 5 ''a'') (MAX' ex_a) \<and>
   fst (LRUCache_set ex_a ''a'' 5 JUndefined) = Inr False \<and>
   CACHE (snd (LRUCache_set ex_a ''a'' 5 JUndefined)) = [] \<and>
   LRU_LIST (snd (LRUCache_set ex_a ''a'' 5 JUndefined)) = []"
proof -
  have a: "map_of (CACHE ex_a) ''a'' = Some 0" by (simp add: ex_a_def ex_empty_def)
  have b: "gt (LENGTH_CALCULATOR ex_a 5 ''a'') (MAX' ex_a)" by (simp add: ex_a_def ex_empty_def)
  have c: "CACHE (snd (LRUCache_set ex_a ''a'' 5 JUndefined)) = []"
    "LRU_LIST (snd (LRUCache_set ex_a ''a'' 5 JUndefined)) = []"
    by (simp_all add: LRUCache_set_def ex_a_def ex_empty_def del_def call_dispose_def removeNode_def Let_def)
  from set_oversized_existing[OF ex_a_inv a b] ex_a_inv a b c show ?thesis by auto
qed

subsection \<open>What dispose is called with\<close>

lemma trim_loop_frame [simp]:
  "heap (trim_loop self ws) = heap self" "next_id (trim_loop self ws) = next_id self"
  "MAX' (trim_loop self ws) = MAX' self" "MAX_AGE (trim_loop self ws) = MAX_AGE self"
  "DISPOSE (trim_loop self ws) = DISPOSE self" "ALLOW_STALE (trim_loop self ws) = ALLOW_STALE self"
  "clock (trim_loop self ws) = clock self"
  "LENGTH_CALCULATOR (trim_loop self ws) = LENGTH_CALCULATOR self"
  "NO_DISPOSE_ON_SET (trim_loop self ws) = NO_DISPOSE_ON_SET self"
  "UPDATE_AGE_ON_GET (trim_loop self ws) = UPDATE_AGE_ON_GET self"
  by (induction ws arbitrary: self; simp)+

lemma trim_frame [simp]:
  "heap (trim self) = heap self" "next_id (trim self) = next_id self"
  "MAX' (trim self) = MAX' self" "MAX_AGE (trim self) = MAX_AGE self"
  "DISPOSE (trim self) = DISPOSE self" "ALLOW_STALE (trim self) = ALLOW_STALE self"
  "clock (trim self) = clock self"
  "LENGTH_CALCULATOR (trim self) = LENGTH_CALCULATOR self"
  "NO_DISPOSE_ON_SET (trim self) = NO_DISPOSE_ON_SET self"
  "UPDATE_AGE_ON_GET (trim self) = UPDATE_AGE_ON_GET self"
  by (simp_all add: trim_def)

lemma get_frame [simp]:
  "next_id (snd (get self key doUse)) = next_id self"
  "MAX' (snd (get self key doUse)) = MAX' self" "MAX_AGE (snd (get self key doUse)) = MAX_AGE self"
  "DISPOSE (snd (get self key doUse)) = DISPOSE self"
  "ALLOW_STALE (snd (get self key doUse)) = ALLOW_STALE self"
  "clock (snd (get self key doUse)) = clock self"
  "LENGTH_CALCULATOR (snd (get self key doUse)) = LENGTH_CALCULATOR self"
  by (simp_all add: get_def Let_def split: option.splits)

lemma trim_unbounded: "MAX' self = Infinity \<Longrightarrow> trim self = self"
  by (simp add: trim_def)

text \<open>
  Claim C2, as amended. When the weight of the value exceeds the capacity and a dispose
  callback is configured, \<^verbatim>\<open>set(key, value)\<close> returns false after exactly one call of the
  callback: with the rejected pair \<open>(key, value)\<close> when the key is absent, and with the key
  and the value stored so far when the key is present.
\<close>

theorem set_oversized_dispose:
  assumes inv: "cache_inv self" and big: "gt (LENGTH_CALCULATOR self val key) (MAX' self)"
    and disp: "DISPOSE self"
  shows "fst (LRUCache_set self key val JUndefined) = Inr False \<and>
     (case map_of (CACHE self) key of
        None \<Rightarrow> disposed (snd (LRUCache_set self key val JUndefined)) = disposed self @ [(key, val)]
      | Some node \<Rightarrow> \<exists>old. heap self node = Some old \<and>
          disposed (snd (LRUCache_set self key val JUndefined)) =
            disposed self @ [(key, hit_value old)])"
proof (cases "map_of (CACHE self) key")
  case None
  have "LRUCache_set self key val JUndefined =
      (Inr False, if DISPOSE self then call_dispose self key val else self)"
    by (rule LRUCache_set_oversized_new[OF _ None big]) simp
  with None disp show ?thesis by (simp add: call_dispose_def)
next
  case (Some node)
  from inv_cache_node[OF inv Some] obtain old where
    old: "heap self node = Some old" "hit_key old = key" by auto
  have "LRUCache_set self key val JUndefined = (Inr False, del self (Some node))"
    by (rule LRUCache_set_oversized_old[OF _ Some big]) simp
  with Some old disp show ?thesis by (simp add: del_Some(4)[OF old(1)])
qed

theorem set_oversized_dispose_witness:
  "cache_inv ex_a \<and> gt (LENGTH_CALCULATOR ex_a 5 ''b'') (MAX' ex_a) \<and> DISPOSE ex_a \<and>
   map_of (CACHE ex_a) ''b'' = None \<and>
   fst (LRUCache_set ex_a ''b'' 5 JUndefined) = Inr False \<and>
   disposed (snd (LRUCache_set ex_a ''b'' 5 JUndefined)) = [(''b'', 5)]"
proof -
  have a: "gt (LENGTH_CALCULATOR ex_a 5 ''b'') (MAX' ex_a)" "DISPOSE ex_a"
    "map_of (CACHE ex_a) ''b'' = None" "disposed ex_a = []"
    by (simp_all add: ex_a_def ex_empty_def)
  from set_oversized_dispose[OF ex_a_inv a(1,2)] ex_a_inv a show ?thesis by simp
qed

text \<open>
  Claim C2 as stated fails when the key is present: in the cache \<open>ex_a\<close>, which holds
  \<open>a \<mapsto> 1\<close>, the oversized \<^verbatim>\<open>set(a, 5)\<close> calls dispose with \<open>(a, 1)\<close> and never with the
  rejected pair \<open>(a, 5)\<close>.
\<close>

theorem set_oversized_disposes_old_value:
  "DISPOSE ex_a \<and> map_of (CACHE ex_a) ''a'' = Some 0 \<and>
   gt (LENGTH_CALCULATOR ex_a 5 ''a'') (MAX' ex_a) \<and>
   fst (LRUCache_set ex_a ''a'' 5 JUndefined) = Inr False \<and>
   disposed (snd (LRUCache_set ex_a ''a'' 5 JUndefined)) = [(''a'', 1)] \<and>
   (''a'', 5) \<notin> set (disposed (snd (LRUCache_set ex_a ''a'' 5 JUndefined)))"
  by (simp add: LRUCache_set_def ex_a_def ex_empty_def del_def call_dispose_def Let_def)

section \<open>Stale entries and reads\<close>

lemma get_stale:
  assumes inv: "cache_inv self" and node: "map_of (CACHE self) key = Some node"
    and hit: "heap self node = Some hit" and st: "stale self hit"
  shows "evicted_by_read self key node hit (get self key doUse)"
proof -
  from inv_cache_node[OF inv node] hit have n: "node \<in> set (LRU_LIST self)"
    and key: "hit_key hit = key" by auto
  let ?s = "del self (Some node)"
  have g: "get self key doUse = (if ALLOW_STALE self then Some (hit_value hit) else None, ?s)"
    using node hit st by (simp add: get_def Let_def isStale_stale)
  have i: "cache_inv ?s" by (rule cache_inv_del[OF inv n])
  have c: "map_of (CACHE ?s) key = None"
    by (simp add: del_Some(1)[OF hit] key map_of_filter_key)
  then have "key \<notin> set (map fst (CACHE ?s))" by (simp add: map_of_eq_None_iff)
  with cache_inv_same_keys[OF i] have k: "key \<notin> set (keys ?s)" by (simp add: same_keys_def)
  from inv have "distinct (LRU_LIST self)" by (simp add: cache_inv_def)
  then have l: "node \<notin> set (LRU_LIST ?s)" by (simp add: del_Some(2)[OF hit])
  have h: "fst (has ?s key) = False" using c by (simp add: has_def)
  from c k l h show ?thesis
    by (simp add: evicted_by_read_def g del_Some(3,4)[OF hit] key)
qed

text \<open>
  Claim C5. When the entry of a key is stale, \<^verbatim>\<open>get\<close> and \<^verbatim>\<open>peek\<close> evict it whatever
  \<^verbatim>\<open>allowStale\<close> says (one dispose call when a callback is configured; the key leaves the
  index and the list), they return the stale value exactly when \<^verbatim>\<open>allowStale\<close> is set and
  \<^verbatim>\<open>undefined\<close> otherwise, and a following \<^verbatim>\<open>has(key)\<close> returns false.
\<close>

theorem stale_read_evicts:
  assumes "cache_inv self" and "map_of (CACHE self) key = Some node"
    and "heap self node = Some hit" and "stale self hit"
  shows "evicted_by_read self key node hit (LRUCache_get self key) \<and>
         evicted_by_read self key node hit (peek self key)"
  unfolding LRUCache_get_def peek_def using assms by (simp add: get_stale)

theorem stale_read_evicts_witness:
  "cache_inv ex_ttl \<and> map_of (CACHE ex_ttl) ''a'' = Some 0 \<and>
   heap ex_ttl 0 = Some \<lparr>hit_key = ''a'', hit_value = 1, hit_length = 1, hit_now = 1000, hit_maxAge = 100\<rparr> \<and>
   stale ex_ttl \<lparr>hit_key = ''a'', hit_value = 1, hit_length = 1, hit_now = 1000, hit_maxAge = 100\<rparr> \<and>
   fst (LRUCache_get ex_ttl ''a'') = None \<and>
   fst (peek (set_allowStale ex_ttl True) ''a'') = Some 1 \<and>
   disposed (snd (LRUCache_get ex_ttl ''a'')) = [(''a'', 1)] \<and>
   fst (has (snd (LRUCache_get ex_ttl ''a'')) ''a'') = False"
proof -
  let ?hit = "\<lparr>hit_key = ''a'', hit_value = 1::int, hit_length = 1, hit_now = 1000, hit_maxAge = 100\<rparr>"
  have a: "map_of (CACHE ex_ttl) ''a'' = Some 0" "heap ex_ttl 0 = Some ?hit" "stale ex_ttl ?hit"
    "\<not> ALLOW_STALE ex_ttl" "DISPOSE ex_ttl" "disposed ex_ttl = []"
    by (simp_all add: ex_ttl_def ex_empty_def stale_def effectiveTtl_def)
  have b: "fst (peek (set_allowStale ex_ttl True) ''a'') = Some 1"
    by (simp add: ex_ttl_def ex_empty_def set_allowStale_def peek_def get_def isStale_def
        Date_now_def Let_def del_def call_dispose_def)
  from stale_read_evicts[OF ex_ttl_inv a(1,2,3)] ex_ttl_inv a b show ?thesis
    by (simp add: evicted_by_read_def)
qed

subsection \<open>The membership test changes nothing\<close>

text \<open>
  Claim C8. \<^verbatim>\<open>has(key)\<close> returns true exactly when the key maps to an entry that is not
  stale, and the cache it leaves is the cache it was given, also when the entry is stale.
\<close>

theorem has_pure:
  assumes inv: "cache_inv self"
  shows "snd (has self key) = self \<and>
     fst (has self key) =
       (\<exists>node hit. map_of (CACHE self) key = Some node \<and> heap self node = Some hit \<and>
          \<not> stale self hit)"
proof (cases "map_of (CACHE self) key")
  case None then show ?thesis by (simp add: has_def)
next
  case (Some node)
  from inv_cache_node[OF inv Some] obtain hit where "heap self node = Some hit" by auto
  with Some show ?thesis by (simp add: has_def isStale_stale)
qed

theorem has_pure_witness:
  "cache_inv ex_ttl \<and> snd (has ex_ttl ''a'') = ex_ttl \<and> fst (has ex_ttl ''a'') = False \<and>
   fst (has (ex_ttl\<lparr>clock := 1100\<rparr>) ''a'') = True \<and>
   map_of (CACHE ex_ttl) ''a'' = Some 0"
proof -
  have a: "fst (has ex_ttl ''a'') = False" "fst (has (ex_ttl\<lparr>clock := 1100\<rparr>) ''a'') = True"
    "map_of (CACHE ex_ttl) ''a'' = Some 0"
    by (simp_all add: has_def ex_ttl_def ex_empty_def isStale_def Date_now_def)
  from has_pure[OF ex_ttl_inv, of "''a''"] ex_ttl_inv a show ?thesis by simp
qed

section \<open>Capacity zero\<close>

lemma LRUCache_set_frame [simp]:
  "MAX' (snd (LRUCache_set self key val maxAge0)) = MAX' self"
  "MAX_AGE (snd (LRUCache_set self key val maxAge0)) = MAX_AGE self"
  "clock (snd (LRUCache_set self key val maxAge0)) = clock self"
  "LENGTH_CALCULATOR (snd (LRUCache_set self key val maxAge0)) = LENGTH_CALCULATOR self"
  "DISPOSE (snd (LRUCache_set self key val maxAge0)) = DISPOSE self"
  "ALLOW_STALE (snd (LRUCache_set self key val maxAge0)) = ALLOW_STALE self"
  by (simp_all add: LRUCache_set_def LRUCache_get_def Let_def call_dispose_def
      split: option.splits)

lemma MAX'_prune_loop [simp]: "MAX' (prune_loop self ks) = MAX' self"
  by (induction ks arbitrary: self) simp_all

lemma load_loop_preserves:
  assumes step: "\<And>s k v m. P s \<Longrightarrow> P (snd (LRUCache_set s k v m))"
  shows "P self \<Longrightarrow> P (snd (load_loop self now arr))"
proof (induction arr arbitrary: self)
  case Nil then show ?case by simp
next
  case (Cons hit rest)
  show ?case
  proof (cases "entry_e hit = 0")
    case True
    obtain r s1 where r: "LRUCache_set self (entry_k hit) (entry_v hit) JUndefined = (r, s1)"
      by (cases "LRUCache_set self (entry_k hit) (entry_v hit) JUndefined")
    with step[OF Cons.prems, of "entry_k hit" "entry_v hit" JUndefined] have "P s1" by simp
    with True r Cons.IH show ?thesis by (cases r) (simp_all add: Let_def)
  next
    case False
    obtain r s1 where r: "LRUCache_set self (entry_k hit) (entry_v hit) (JNum (entry_e hit - now)) = (r, s1)"
      by (cases "LRUCache_set self (entry_k hit) (entry_v hit) (JNum (entry_e hit - now))")
    with step[OF Cons.prems, of "entry_k hit" "entry_v hit" "JNum (entry_e hit - now)"]
    have "P s1" by simp
    with False r Cons.IH Cons.prems show ?thesis by (cases r) (simp_all add: Let_def)
  qed
qed

lemma MAX'_load_loop [simp]: "MAX' (snd (load_loop self now arr)) = MAX' self"
  by (rule load_loop_preserves[where P = "\<lambda>s. MAX' s = MAX' self"]) simp_all

lemma MAX'_forEachStep [simp]: "MAX' (fst (forEachStep self w)) = MAX' self"
  by (simp add: forEachStep_def Let_def)

lemma MAX'_forEach_loop [simp]: "MAX' (snd (forEach_loop self ws)) = MAX' self"
proof (induction ws arbitrary: self)
  case Nil then show ?case by simp
next
  case (Cons w ws)
  from Cons.IH[of "fst (forEachStep self w)"] show ?case
    by (auto split: prod.splits)
qed

lemma MAX'_relength_loop [simp]: "MAX' (relength_loop self ns) = MAX' self"
  by (induction ns arbitrary: self) (simp_all add: Let_def split: option.splits)

lemma MAX'_exec: "\<forall>mL. op \<noteq> Op_max mL \<Longrightarrow> MAX' (exec self op) = MAX' self"
  by (cases op)
     (simp_all add: LRUCache_get_def peek_def has_def LRUCache_del_def pop_def reset_def prune_def
        load_def forEach_def rforEach_def set_maxAge_def set_allowStale_def
        set_lengthCalculator_def Let_def split: option.splits jsval.splits)

lemma MAX'_run:
  "\<forall>mL. Op_max mL \<notin> set ops \<Longrightarrow> MAX' (foldl exec self ops) = MAX' self"
proof (induction ops arbitrary: self)
  case Nil then show ?case by simp
next
  case (Cons op ops)
  then have "\<forall>mL. op \<noteq> Op_max mL" "\<forall>mL. Op_max mL \<notin> set ops" by auto
  with Cons.IH[of "exec self op"] show ?case by (simp add: MAX'_exec)
qed

lemma set_unbounded:
  assumes "MAX' self = Infinity"
  shows "fst (LRUCache_set self key val JUndefined) = Inr True"
    and "map_of (CACHE self) key = None \<Longrightarrow>
         LRU_LIST (snd (LRUCache_set self key val JUndefined)) = next_id self # LRU_LIST self \<and>
         disposed (snd (LRUCache_set self key val JUndefined)) = disposed self"
proof -
  show "fst (LRUCache_set self key val JUndefined) = Inr True"
    using assms by (simp add: LRUCache_set_def Let_def new_LEntry_def split: option.splits)
  assume n: "map_of (CACHE self) key = None"
  have big: "\<not> gt (LENGTH_CALCULATOR self val key) (MAX' self)" using assms by simp
  show "LRU_LIST (snd (LRUCache_set self key val JUndefined)) = next_id self # LRU_LIST self \<and>
         disposed (snd (LRUCache_set self key val JUndefined)) = disposed self"
    unfolding LRUCache_set_insert[OF _ n big, of JUndefined, simplified]
    using assms by (simp add: trim_unbounded)
qed

text \<open>
  Claim C10. Setting the capacity to 0, in the constructor or through the \<^verbatim>\<open>max\<close> setter,
  yields an unbounded cache: \<^verbatim>\<open>MAX\<close> becomes \<^verbatim>\<open>Infinity\<close>. After \<^verbatim>\<open>max = 0\<close> and any
  further operations that do not assign \<^verbatim>\<open>max\<close> again, the capacity is still
  \<^verbatim>\<open>Infinity\<close>, trimming removes nothing, every \<^verbatim>\<open>set(key, value)\<close> returns true, and the
  \<^verbatim>\<open>set\<close> of a new key keeps every entry of the list and disposes of nothing.
\<close>

theorem max_zero_is_unbounded:
  fixes self :: "('k, 'v) LRUCache" and opts :: "('k, 'v) Options"
  assumes "\<forall>mL. Op_max mL \<notin> set ops"
  shows
  "(\<exists>s. constructor (NumArg 0 :: ('k, 'v) ctor_arg) clk = Inr s \<and> MAX' s = Infinity) \<and>
   (case constructor (OptArg (opts\<lparr>opt_max := JNum 0\<rparr>)) clk of
      Inl err \<Rightarrow> err = TypeError ''maxAge must be a number''
    | Inr s \<Rightarrow> MAX' s = Infinity) \<and>
   set_max self (JNum 0) = (Inr (), self\<lparr>MAX' := Infinity\<rparr>) \<and>
   (let s1 = foldl exec (snd (set_max self (JNum 0))) ops;
        r = LRUCache_set s1 key val JUndefined
    in MAX' s1 = Infinity \<and> trim s1 = s1 \<and> fst r = Inr True \<and>
       (map_of (CACHE s1) key = None \<longrightarrow>
          LRU_LIST (snd r) = next_id s1 # LRU_LIST s1 \<and> disposed (snd r) = disposed s1))"
proof -
  have c1: "\<exists>s. constructor (NumArg 0 :: ('k, 'v) ctor_arg) clk = Inr s \<and> MAX' s = Infinity"
    by (simp add: constructor_def empty_Options_def reset_def)
  have c2: "(case constructor (OptArg (opts\<lparr>opt_max := JNum 0\<rparr>)) clk of
      Inl err \<Rightarrow> err = TypeError ''maxAge must be a number''
    | Inr s \<Rightarrow> MAX' s = Infinity)"
    by (simp add: constructor_def reset_def Let_def)
  have m: "set_max self (JNum 0) = (Inr (), self\<lparr>MAX' := Infinity\<rparr>)"
    by (simp add: set_max_def trim_def)
  let ?s1 = "foldl exec (self\<lparr>MAX' := Infinity\<rparr>) ops"
  have inf: "MAX' ?s1 = Infinity" using MAX'_run[OF assms] by simp
  from c1 c2 inf set_unbounded[OF inf] show ?thesis
    by (simp add: m Let_def trim_unbounded)
qed

theorem max_zero_is_unbounded_witness:
  "set_max ex_a (JNum 0) = (Inr (), ex_a\<lparr>MAX' := Infinity\<rparr>) \<and>
   foldl exec (snd (set_max ex_a (JNum 0))) [Op_get ''a''] = ex_a\<lparr>MAX' := Infinity\<rparr> \<and>
   map_of (CACHE (ex_a\<lparr>MAX' := Infinity\<rparr>)) ''b'' = None \<and>
   fst (LRUCache_set (ex_a\<lparr>MAX' := Infinity\<rparr>) ''b'' 5 JUndefined) = Inr True \<and>
   LRU_LIST (snd (LRUCache_set (ex_a\<lparr>MAX' := Infinity\<rparr>) ''b'' 5 JUndefined)) = [1, 0] \<and>
   disposed (snd (LRUCache_set (ex_a\<lparr>MAX' := Infinity\<rparr>) ''b'' 5 JUndefined)) = []"
proof -
  have ops: "\<forall>mL. Op_max mL \<notin> set [Op_get ''a'' :: (string, int) op]" by simp
  have a: "map_of (CACHE (ex_a\<lparr>MAX' := Infinity\<rparr>)) ''b'' = None"
    "next_id ex_a = 1" "LRU_LIST ex_a = [0]" "disposed ex_a = []"
    by (simp_all add: ex_a_def ex_empty_def)
  have b: "foldl exec (ex_a\<lparr>MAX' := Infinity\<rparr>) [Op_get ''a''] = ex_a\<lparr>MAX' := Infinity\<rparr>"
    by (simp add: ex_a_def ex_empty_def LRUCache_get_def get_def isStale_def unshiftNode_def)
  from max_zero_is_unbounded[OF ops, where self = ex_a and key = "''b''" and val = 5 and clk = 0
      and opts = empty_Options] a b show ?thesis
    by (auto simp: Let_def)
qed

section \<open>Validation of the configuration\<close>

text \<open>
  Claim C7, at the input where the code departs from it. The \<^verbatim>\<open>maxAge\<close> setter and the
  constructor accept the negative number \<open>-1\<close> and store it as the default age, although the
  setter's own error message asks for a non-negative number and the \<^verbatim>\<open>max\<close> setter rejects
  the same value.
\<close>

theorem negative_maxAge_accepted:
  fixes self :: "('k, 'v) LRUCache"
  shows
  "set_maxAge self (JNum (- 1)) = (Inr (), trim (self\<lparr>MAX_AGE := - 1\<rparr>)) \<and>
   MAX_AGE (snd (set_maxAge self (JNum (- 1)))) = - 1 \<and>
   (\<exists>s :: ('k, 'v) LRUCache. constructor (OptArg (empty_Options\<lparr>opt_maxAge := JNum (- 1)\<rparr>)) clk = Inr s \<and>
        MAX_AGE s = - 1) \<and>
   fst (set_max self (JNum (- 1))) = Inl (TypeError ''max must be a non-negative number'')"
  by (simp add: set_maxAge_def set_max_def constructor_def empty_Options_def reset_def)

theorem negative_maxAge_accepted_witness:
  "fst (set_maxAge ex_a (JNum (- 1))) = Inr () \<and>
   MAX_AGE (snd (set_maxAge ex_a (JNum (- 1)))) = - 1 \<and>
   fst (set_max ex_a (JNum (- 1))) = Inl (TypeError ''max must be a non-negative number'')"
  using negative_maxAge_accepted[where self = ex_a and clk = 0] by simp

section \<open>Eviction order\<close>

lemma ex_unit_constructed:
  "constructor (OptArg (empty_Options\<lparr>opt_max := JNum 2, opt_dispose := True\<rparr>)) 1000 = Inr ex_unit"
  by (simp add: constructor_def empty_Options_def ex_unit_def reset_def)

lemma dispose_args_Cons:
  "heap self n = Some hit \<Longrightarrow>
   dispose_args self (n # ns) = (hit_key hit, hit_value hit) # dispose_args self ns"
  by (simp add: dispose_args_def List.map_filter_def)

lemma dispose_args_Nil [simp]: "dispose_args self [] = []"
  by (simp add: dispose_args_def List.map_filter_def)

lemma evict_count_le: "evict_count tot cap ws \<le> length ws"
  by (induction ws arbitrary: tot) simp_all

lemma evict_count_needed:
  "j < evict_count tot cap ws \<Longrightarrow> gt (foldl num_sub tot (take j ws)) cap"
proof (induction ws arbitrary: tot j)
  case Nil then show ?case by simp
next
  case (Cons w ws)
  show ?case
  proof (cases j)
    case 0 with Cons.prems show ?thesis by (simp split: if_splits)
  next
    case (Suc j')
    with Cons.prems have "j' < evict_count (num_sub tot w) cap ws" by (simp split: if_splits)
    from Cons.IH[OF this] show ?thesis by (simp add: Suc)
  qed
qed

lemma evict_count_stops:
  "evict_count tot cap ws < length ws \<Longrightarrow>
   \<not> gt (foldl num_sub tot (take (evict_count tot cap ws) ws)) cap"
proof (induction ws arbitrary: tot)
  case Nil then show ?case by simp
next
  case (Cons w ws)
  show ?case
  proof (cases "gt tot cap")
    case False then show ?thesis by simp
  next
    case True
    with Cons.prems have "evict_count (num_sub tot w) cap ws < length ws" by simp
    from Cons.IH[OF this] True show ?thesis by simp
  qed
qed

lemma trim_loop_char:
  assumes "cache_inv self" "LRU_LIST self = rev ws"
  defines "n \<equiv> evict_count (LENGTH self) (MAX' self) (map (weight self) ws)"
  shows "LRU_LIST (trim_loop self ws) = rev (drop n ws)"
    and "disposed (trim_loop self ws) =
       disposed self @ (if DISPOSE self then dispose_args self (take n ws) else [])"
    and "length (dispose_args self (take n ws)) = n"
    and "LENGTH (trim_loop self ws) = foldl num_sub (LENGTH self) (map (weight self) (take n ws))"
  using assms(1,2) unfolding n_def
proof (induction ws arbitrary: self)
  case Nil
  { case 1 then show ?case by simp }
  { case 2 then show ?case by simp }
  { case 3 then show ?case by simp }
  { case 4 then show ?case by simp }
next
  case (Cons w ws)
  have step: "\<And>self :: ('a, 'b) LRUCache. cache_inv self \<Longrightarrow> LRU_LIST self = rev (w # ws) \<Longrightarrow>
     gt (LENGTH self) (MAX' self) \<Longrightarrow>
     (\<exists>hit. heap self w = Some hit \<and> weight self w = hit_length hit) \<and>
     cache_inv (del self (Some w)) \<and> LRU_LIST (del self (Some w)) = rev ws"
  proof -
    fix self :: "('a, 'b) LRUCache"
    assume inv: "cache_inv self" and l: "LRU_LIST self = rev (w # ws)"
    from l have w: "w \<in> set (LRU_LIST self)" by simp
    from inv_node_entry[OF inv w] obtain hit where hit: "heap self w = Some hit" by auto
    from inv l have d: "distinct (w # ws)" by (metis cache_inv_def distinct_rev)
    have "LRU_LIST (del self (Some w)) = rev ws"
      using d by (simp add: del_Some(2)[OF hit] l remove1_append)
    with hit cache_inv_del[OF inv w]
    show "(\<exists>hit. heap self w = Some hit \<and> weight self w = hit_length hit) \<and>
       cache_inv (del self (Some w)) \<and> LRU_LIST (del self (Some w)) = rev ws"
      by (simp add: weight_def)
  qed
  have da: "\<And>self :: ('a, 'b) LRUCache. dispose_args (del self (Some w)) = dispose_args self"
    by (simp add: dispose_args_def fun_eq_iff)
  { case 1
    show ?case
    proof (cases "gt (LENGTH self) (MAX' self)")
      case False with 1 show ?thesis by simp
    next
      case True
      from step[OF 1 True] obtain hit where hit: "heap self w = Some hit"
        "weight self w = hit_length hit" and i: "cache_inv (del self (Some w))"
        and l: "LRU_LIST (del self (Some w)) = rev ws" by blast
      from Cons.IH(1)[OF i l] True show ?thesis
        by (simp add: del_Some(3)[OF hit(1)] hit(2))
    qed }
  { case 2
    show ?case
    proof (cases "gt (LENGTH self) (MAX' self)")
      case False then show ?thesis by simp
    next
      case True
      from step[OF 2 True] obtain hit where hit: "heap self w = Some hit"
        "weight self w = hit_length hit" and i: "cache_inv (del self (Some w))"
        and l: "LRU_LIST (del self (Some w)) = rev ws" by blast
      from Cons.IH(2)[OF i l] True show ?thesis
        by (simp add: del_Some(3,4)[OF hit(1)] hit(2) da dispose_args_Cons[OF hit(1)])
    qed }
  { case 3
    show ?case
    proof (cases "gt (LENGTH self) (MAX' self)")
      case False then show ?thesis by simp
    next
      case True
      from step[OF 3 True] obtain hit where hit: "heap self w = Some hit"
        "weight self w = hit_length hit" and i: "cache_inv (del self (Some w))"
        and l: "LRU_LIST (del self (Some w)) = rev ws" by blast
      from Cons.IH(3)[OF i l] True show ?thesis
        by (simp add: del_Some(3)[OF hit(1)] hit(2) da dispose_args_Cons[OF hit(1)])
    qed }
  { case 4
    show ?case
    proof (cases "gt (LENGTH self) (MAX' self)")
      case False then show ?thesis by simp
    next
      case True
      from step[OF 4 True] obtain hit where hit: "heap self w = Some hit"
        "weight self w = hit_length hit" and i: "cache_inv (del self (Some w))"
        and l: "LRU_LIST (del self (Some w)) = rev ws" by blast
      from Cons.IH(4)[OF i l] True show ?thesis
        by (simp add: del_Some(3)[OF hit(1)] hit(2))
    qed }
qed

lemma ex_ab_reached:
  "foldl exec ex_unit [Op_set ''a'' 1 JUndefined, Op_set ''b'' 2 JUndefined] = ex_ab"
  by (simp add: ex_ab_def ex_unit_def LRUCache_set_def Let_def new_LEntry_def unshift_def
      trim_def naiveLength_def num_add_exact)

lemma ex_ab_inv: "cache_inv ex_ab"
  using cache_inv_run[OF cache_inv_constructor[OF ex_unit_constructed]]
  by (simp only: ex_ab_reached[symmetric])

lemma trim_eq_loop: "trim self = trim_loop self (rev (LRU_LIST self))"
  by (cases "rev (LRU_LIST self)") (simp_all add: trim_def)

lemma trim_evicts_from_tail:
  assumes inv: "cache_inv self"
  shows "\<exists>k. evicts_from_tail self (trim self) k"
proof -
  let ?l = "LRU_LIST self"
  let ?ws = "map (weight self) (rev ?l)"
  define n where "n = evict_count (LENGTH self) (MAX' self) ?ws"
  define k where "k = length ?l - n"
  have n_le: "n \<le> length ?l" using evict_count_le[of "LENGTH self" "MAX' self" ?ws]
    by (simp add: n_def)
  have tk: "take n (rev ?l) = rev (drop k ?l)" by (simp add: k_def take_rev)
  note ch = trim_loop_char[OF inv, of "rev ?l", simplified, folded n_def]
  have L: "LRU_LIST (trim self) = take k ?l"
    using ch(1) by (simp add: trim_eq_loop k_def rev_drop)
  have K: "set (map fst (CACHE (trim self))) = set (keys (trim self))"
    using cache_inv_same_keys[OF cache_inv_trim[OF inv]] by (simp add: same_keys_def)
  have D: "disposed (trim self) = disposed self @
       (if DISPOSE self then dispose_args self (rev (drop k ?l)) else [])"
    using ch(2) by (simp add: trim_eq_loop tk)
  have D': "length (dispose_args self (rev (drop k ?l))) = length ?l - k"
    using ch(3) n_le by (simp add: tk k_def)
  have sum_take: "foldl num_sub (LENGTH self) (take i ?ws) =
      total_after self (drop (length ?l - i) ?l)" for i
  proof -
    have "take i ?ws = map (weight self) (rev (drop (length ?l - i) ?l))"
      by (simp add: take_map take_rev)
    then show ?thesis by (simp add: total_after_def foldl_map foldr_conv_foldl)
  qed
  have W: "LENGTH (trim self) = total_after self (drop k ?l)"
    using ch(4) sum_take[of n] by (simp add: trim_eq_loop take_map k_def)
  have N: "\<forall>j. k < j \<and> j \<le> length ?l \<longrightarrow>
        gt (total_after self (drop j ?l)) (MAX' self)"
  proof (intro allI impI)
    fix j assume j: "k < j \<and> j \<le> length ?l"
    then have "length ?l - j < n" by (simp add: k_def) arith
    from evict_count_needed[OF this[unfolded n_def]] j
    show "gt (total_after self (drop j ?l)) (MAX' self)"
      by (simp add: sum_take)
  qed
  have F: "\<not> gt (LENGTH (trim self)) (MAX' self) \<or> LRU_LIST (trim self) = []"
  proof (cases "n < length ?ws")
    case True
    from evict_count_stops[OF True[unfolded n_def]] show ?thesis
      by (simp add: W sum_take k_def n_def)
  next
    case False
    with n_le have "k = 0" by (simp add: k_def)
    with L show ?thesis by simp
  qed
  have "k \<le> length ?l" by (simp add: k_def)
  with L K D D' W N F have "evicts_from_tail self (trim self) k"
    unfolding evicts_from_tail_def by blast
  then show ?thesis ..
qed

lemma get_promotes:
  "map_of (CACHE self) key = Some node \<Longrightarrow> \<not> isStale self (heap self node) \<Longrightarrow>
   LRU_LIST (snd (LRUCache_get self key)) = node # remove1 node (LRU_LIST self)"
  by (simp add: LRUCache_get_def get_def Let_def unshiftNode_def)

text \<open>
  Claim C3. Eviction is strict LRU. For every cache (satisfying the structural invariant),
  \<^verbatim>\<open>trim\<close> keeps a prefix of the recency list and evicts the rest from the tail towards the
  head, with one dispose call per evicted entry in that order; every eviction happens
  while the total still exceeds the capacity, and trimming ends when the total fits or the
  list is empty. \<^verbatim>\<open>get\<close> moves the entry it reads, when it is not stale, to the head. On
  the cache of capacity 2 with unit weights, \<^verbatim>\<open>set(a,1); set(b,2); get(a); set(c,3)\<close>
  evicts \<open>b\<close> and keeps \<open>c\<close> and \<open>a\<close>.
\<close>

theorem strict_lru_eviction:
  assumes "cache_inv self"
  shows "(\<exists>k. evicts_from_tail self (trim self) k) \<and>
     (\<forall>key node. map_of (CACHE self) key = Some node \<and> \<not> isStale self (heap self node) \<longrightarrow>
        LRU_LIST (snd (LRUCache_get self key)) = node # remove1 node (LRU_LIST self)) \<and>
     (let s = foldl exec ex_unit [Op_set ''a'' 1 JUndefined, Op_set ''b'' 2 JUndefined,
                Op_get ''a'', Op_set ''c'' 3 JUndefined]
      in keys s = [''c'', ''a''] \<and> values_of s = [3, 1] \<and> disposed s = [(''b'', 2)] \<and>
         fst (has s ''b'') = False \<and> fst (has s ''a'') = True \<and> fst (has s ''c'') = True)"
proof -
  have sc: "let s = foldl exec ex_unit [Op_set ''a'' 1 JUndefined, Op_set ''b'' 2 JUndefined,
                Op_get ''a'', Op_set ''c'' 3 JUndefined]
      in keys s = [''c'', ''a''] \<and> values_of s = [3, 1] \<and> disposed s = [(''b'', 2)] \<and>
         fst (has s ''b'') = False \<and> fst (has s ''a'') = True \<and> fst (has s ''c'') = True"
    by (simp add: ex_unit_def LRUCache_set_def LRUCache_get_def get_def Let_def new_LEntry_def
        unshift_def unshiftNode_def trim_def naiveLength_def isStale_def del_def call_dispose_def
        removeNode_def keys_def values_of_def toArray_def List.map_filter_def has_def
        num_add_exact num_sub_exact)
  have pr: "\<forall>key node. map_of (CACHE self) key = Some node \<and> \<not> isStale self (heap self node) \<longrightarrow>
        LRU_LIST (snd (LRUCache_get self key)) = node # remove1 node (LRU_LIST self)"
    by (simp add: get_promotes)
  show ?thesis by (intro conjI trim_evicts_from_tail[OF assms] pr sc)
qed

theorem strict_lru_eviction_witness:
  "cache_inv (ex_ab\<lparr>MAX' := Finite 1\<rparr>) \<and>
   evicts_from_tail (ex_ab\<lparr>MAX' := Finite 1\<rparr>) (trim (ex_ab\<lparr>MAX' := Finite 1\<rparr>)) 1 \<and>
   LRU_LIST (trim (ex_ab\<lparr>MAX' := Finite 1\<rparr>)) = [1] \<and>
   disposed (trim (ex_ab\<lparr>MAX' := Finite 1\<rparr>)) = [(''a'', 1)]"
proof -
  let ?s = "ex_ab\<lparr>MAX' := Finite 1\<rparr>"
  have "cache_inv ?s = cache_inv ex_ab" by (rule cache_inv_cong) simp_all
  with ex_ab_inv have i: "cache_inv ?s" by simp
  have l: "LRU_LIST (trim ?s) = [1]" "disposed (trim ?s) = [(''a'', 1)]" "LRU_LIST ?s = [1, 0]"
    by (simp_all add: ex_ab_def ex_unit_def trim_def del_def call_dispose_def removeNode_def
        num_sub_exact)
  from strict_lru_eviction[OF i] obtain k where k: "evicts_from_tail ?s (trim ?s) k" by blast
  then have "take k [1, 0] = [1::nat]" "k \<le> 2"
    unfolding evicts_from_tail_def l by simp_all
  then have "k = 1" by (cases k) (simp_all add: take_Suc_Cons)
  with k i l show ?thesis by simp
qed

section \<open>Entries stored without a timestamp\<close>

lemma map_of_del:
  "map_of (CACHE (del self node)) k = None \<or> map_of (CACHE (del self node)) k = map_of (CACHE self) k"
  by (cases node) (auto simp: del_def call_dispose_def Let_def map_of_filter_key split: option.splits)

lemma map_of_trim_loop:
  "map_of (CACHE (trim_loop self ws)) k = None \<or>
   map_of (CACHE (trim_loop self ws)) k = map_of (CACHE self) k"
proof (induction ws arbitrary: self)
  case Nil then show ?case by simp
next
  case (Cons w ws)
  from Cons.IH[of "del self (Some w)"] map_of_del[of self "Some w" k] show ?case by auto
qed

lemma map_of_trim:
  "map_of (CACHE (trim self)) k = None \<or> map_of (CACHE (trim self)) k = map_of (CACHE self) k"
  using map_of_trim_loop[of self "rev (LRU_LIST self)" k] by (simp add: trim_eq_loop)

lemma map_of_get:
  "map_of (CACHE (snd (get self k' doUse))) k = None \<or>
   map_of (CACHE (snd (get self k' doUse))) k = map_of (CACHE self) k"
  using map_of_del[of self _ k] by (auto simp: get_def Let_def split: option.splits)

lemma heap_peek [simp]: "heap (snd (get self k False)) = heap self"
  by (simp add: get_def Let_def split: option.splits)

lemma stale_cong:
  "MAX_AGE t = MAX_AGE self \<Longrightarrow> clock t = clock self \<Longrightarrow> stale t hit = stale self hit"
  by (simp add: stale_def effectiveTtl_def)

lemma prune_loop_absent:
  "map_of (CACHE self) key = None \<Longrightarrow> map_of (CACHE (prune_loop self ks)) key = None"
proof (induction ks arbitrary: self)
  case Nil then show ?case by simp
next
  case (Cons k ks)
  from map_of_get[of self k False key] Cons.prems
  have "map_of (CACHE (snd (get self k False))) key = None" by auto
  from Cons.IH[OF this] show ?case by simp
qed

lemma prune_loop_evicts:
  "cache_inv self \<Longrightarrow> key \<in> set ks \<Longrightarrow> map_of (CACHE self) key = Some node \<Longrightarrow>
   heap self node = Some hit \<Longrightarrow> stale self hit \<Longrightarrow>
   map_of (CACHE (prune_loop self ks)) key = None"
proof (induction ks arbitrary: self)
  case Nil then show ?case by simp
next
  case (Cons k ks)
  let ?s1 = "snd (get self k False)"
  show ?case
  proof (cases "map_of (CACHE ?s1) key")
    case None
    then show ?thesis by (simp add: prune_loop_absent)
  next
    case (Some n)
    with map_of_get[of self k False key] Cons.prems(3)
    have present: "map_of (CACHE ?s1) key = Some node" by auto
    have "k \<noteq> key"
    proof
      assume "k = key"
      with get_stale[OF Cons.prems(1,3,4,5), of False] have "map_of (CACHE ?s1) key = None"
        by (simp add: evicted_by_read_def)
      with Some show False by simp
    qed
    with Cons.prems(2) have "key \<in> set ks" by simp
    moreover have "cache_inv ?s1" using Cons.prems(1) by (rule cache_inv_get)
    moreover have "heap ?s1 node = Some hit" using Cons.prems(4) by simp
    moreover have "stale ?s1 hit" using Cons.prems(5) stale_cong[of ?s1 self hit] by simp
    ultimately show ?thesis using Cons.IH[of ?s1] present by simp
  qed
qed

lemma forEachStep_state:
  "fst (forEachStep self w) = (if isStale self (heap self w) then del self (Some w) else self)"
  by (simp add: forEachStep_def Let_def)

lemma forEach_loop_absent:
  "map_of (CACHE self) key = None \<Longrightarrow> map_of (CACHE (snd (forEach_loop self ws))) key = None"
proof (induction ws arbitrary: self)
  case Nil then show ?case by simp
next
  case (Cons w ws)
  from map_of_del[of self "Some w" key] Cons.prems
  have "map_of (CACHE (fst (forEachStep self w))) key = None"
    by (auto simp: forEachStep_state)
  from Cons.IH[OF this] show ?case by (auto split: prod.splits)
qed

lemma forEach_loop_evicts:
  "node \<in> set ws \<Longrightarrow> map_of (CACHE self) key = Some node \<Longrightarrow>
   heap self node = Some hit \<Longrightarrow> hit_key hit = key \<Longrightarrow> stale self hit \<Longrightarrow>
   map_of (CACHE (snd (forEach_loop self ws))) key = None"
proof (induction ws arbitrary: self)
  case Nil then show ?case by simp
next
  case (Cons w ws)
  let ?s1 = "fst (forEachStep self w)"
  have loop: "snd (forEach_loop self (w # ws)) = snd (forEach_loop ?s1 ws)"
    by (auto split: prod.splits)
  show ?case
  proof (cases "map_of (CACHE ?s1) key")
    case None
    then show ?thesis unfolding loop by (rule forEach_loop_absent)
  next
    case (Some n)
    with map_of_del[of self "Some w" key] Cons.prems(2)
    have present: "map_of (CACHE ?s1) key = Some node" by (auto simp: forEachStep_state split: if_splits)
    have "w \<noteq> node"
    proof
      assume "w = node"
      with Cons.prems(3,4,5) have "map_of (CACHE ?s1) key = None"
        by (simp add: forEachStep_state isStale_stale del_Some(1) map_of_filter_key)
      with Some show False by simp
    qed
    with Cons.prems(1) have "node \<in> set ws" by simp
    moreover have "heap ?s1 node = Some hit" using Cons.prems(3) by (simp add: forEachStep_state)
    moreover have "stale ?s1 hit" using Cons.prems(5) stale_cong[of ?s1 self hit]
      by (simp add: forEachStep_state)
    ultimately show ?thesis unfolding loop using Cons.IH[of ?s1] present Cons.prems(4) by simp
  qed
qed

lemma stale_entry_evicted_by_visits:
  assumes inv: "cache_inv self" and node: "map_of (CACHE self) key = Some node"
    and hit: "heap self node = Some hit" and st: "stale self hit"
  shows "evicted_by_visits self key node hit"
proof -
  from inv_cache_node[OF inv node] hit have n: "node \<in> set (LRU_LIST self)"
    and key: "hit_key hit = key" by auto
  from node have "key \<in> set (map fst (CACHE self))"
    by (metis map_of_eq_None_iff option.distinct(1) set_map)
  then have "map_of (CACHE (prune self)) key = None"
    unfolding prune_def by (rule prune_loop_evicts[OF inv _ node hit st])
  moreover have "map_of (CACHE (snd (forEach self))) key = None"
    unfolding forEach_def by (rule forEach_loop_evicts[OF n node hit key st])
  moreover have "map_of (CACHE (snd (rforEach self))) key = None"
    unfolding rforEach_def using n by (intro forEach_loop_evicts[OF _ node hit key st]) simp
  ultimately show ?thesis
    unfolding evicted_by_visits_def LRUCache_get_def peek_def
    using get_stale[OF inv node hit st] by simp
qed

lemma ex_age_constructed: "constructor (OptArg ex_age_options) clk = Inr (ex_age clk)"
  by (simp add: constructor_def ex_age_options_def empty_Options_def ex_age_def reset_def)

lemma ex_age_ab_reached:
  "foldl exec (ex_age 1000)
     [Op_set ''a'' 1 JUndefined, Op_set ''b'' 2 JUndefined, Tick 1080, Op_get ''a''] = ex_age_ab"
  by (simp add: ex_age_ab_def ex_age_def LRUCache_set_def LRUCache_get_def get_def Let_def
      new_LEntry_def unshift_def unshiftNode_def trim_def naiveLength_def isStale_def
      Date_now_def num_add_exact fun_upd_twist)

lemma ex_age_ab_inv: "cache_inv ex_age_ab"
  using cache_inv_run[OF cache_inv_constructor[OF ex_age_constructed]]
  by (simp only: ex_age_ab_reached[symmetric])

lemma heap_get_no_update:
  "\<not> UPDATE_AGE_ON_GET self \<Longrightarrow> heap (snd (get self key doUse)) = heap self"
  by (simp add: get_def Let_def split: option.splits)

text \<open>
  Claim C9, as amended. An entry inserted while no TTL is in effect (no override, default
  age 0) is stored with timestamp 0 and age 0, and is not stale then. Without
  \<^verbatim>\<open>updateAgeOnGet\<close> a \<^verbatim>\<open>get\<close> or \<^verbatim>\<open>peek\<close> changes no stored entry. When, after any
  further operations, the default age is set to a positive value below the reading of the
  clock, every entry that still has timestamp 0 and age 0 is stale at once, and the next
  \<^verbatim>\<open>get\<close>, \<^verbatim>\<open>peek\<close>, \<^verbatim>\<open>prune\<close>, \<^verbatim>\<open>forEach\<close> or \<^verbatim>\<open>rforEach\<close> evicts it.
\<close>

theorem sentinel_timestamp_expires:
  assumes inv: "cache_inv self" and nottl: "MAX_AGE self = 0"
    and new: "map_of (CACHE self) key = None"
    and fits: "\<not> gt (LENGTH_CALCULATOR self val key) (MAX' self)"
    and ttl: "0 < ttl" "ttl < clock (foldl exec (snd (LRUCache_set self key val JUndefined)) ops)"
  shows "let s1 = snd (LRUCache_set self key val JUndefined);
             r = set_maxAge (foldl exec s1 ops) (JNum ttl);
             s2 = snd r
         in heap s1 (next_id self) =
              Some \<lparr>hit_key = key, hit_value = val,
                    hit_length = LENGTH_CALCULATOR self val key, hit_now = 0, hit_maxAge = 0\<rparr> \<and>
            (\<forall>node. map_of (CACHE s1) key = Some node \<longrightarrow> node = next_id self) \<and>
            (\<forall>node hit. map_of (CACHE s1) key = Some node \<and> heap s1 node = Some hit \<longrightarrow>
               \<not> stale s1 hit) \<and>
            (\<not> UPDATE_AGE_ON_GET self \<longrightarrow>
               (\<forall>k. heap (snd (LRUCache_get s1 k)) = heap s1 \<and> heap (snd (peek s1 k)) = heap s1)) \<and>
            fst r = Inr () \<and> MAX_AGE s2 = ttl \<and>
            (\<forall>k node hit. map_of (CACHE s2) k = Some node \<and> heap s2 node = Some hit \<and>
               hit_now hit = 0 \<and> hit_maxAge hit = 0 \<longrightarrow>
               stale s2 hit \<and> evicted_by_visits s2 k node hit)"
proof -
  let ?len = "LENGTH_CALCULATOR self val key"
  let ?hit = "\<lparr>hit_key = key, hit_value = val, hit_length = ?len, hit_now = 0, hit_maxAge = 0\<rparr>"
  let ?t = "self\<lparr>LENGTH := num_add (LENGTH self) ?len,
               heap := (heap self)(next_id self := Some ?hit),
               next_id := Suc (next_id self),
               LRU_LIST := next_id self # LRU_LIST self,
               CACHE := CACHE self @ [(key, next_id self)]\<rparr>"
  define s1 where "s1 = snd (LRUCache_set self key val JUndefined)"
  define s1' where "s1' = foldl exec s1 ops"
  define s2 where "s2 = snd (set_maxAge s1' (JNum ttl))"
  have arg: "set_maxAge_arg self JUndefined = 0" "set_now self JUndefined = 0"
    using nottl by (simp_all add: set_maxAge_arg_def set_now_def)
  have "LRUCache_set self key val JUndefined = (Inr True, trim ?t)"
    using LRUCache_set_insert[OF _ new fits, of JUndefined] by (simp add: arg)
  then have s1: "s1 = trim ?t" by (simp add: s1_def)
  have h1: "heap s1 (next_id self) = Some ?hit" by (simp add: s1)
  have n1: "node = next_id self" if "map_of (CACHE s1) key = Some node" for node
  proof -
    from map_of_trim[of ?t key] that have "map_of (CACHE ?t) key = Some node"
      by (auto simp: s1)
    with new show ?thesis by (simp add: map_add_def split: option.splits)
  qed
  have m1: "MAX_AGE s1 = 0" "clock s1 = clock self" "UPDATE_AGE_ON_GET s1 = UPDATE_AGE_ON_GET self"
    by (simp_all add: s1 nottl)
  have st1: "\<not> stale s1 hit" if "map_of (CACHE s1) key = Some node" "heap s1 node = Some hit"
    for node hit
    using n1[OF that(1)] that(2) h1 m1 by (auto simp: stale_def effectiveTtl_def)
  have rd: "heap (snd (LRUCache_get s1 k)) = heap s1 \<and> heap (snd (peek s1 k)) = heap s1"
    if "\<not> UPDATE_AGE_ON_GET self" for k
    using that m1(3) by (simp add: LRUCache_get_def peek_def heap_get_no_update)
  have i1: "cache_inv s1" unfolding s1_def using inv by (rule cache_inv_LRUCache_set)
  have i1': "cache_inv s1'" unfolding s1'_def using i1 by (rule cache_inv_run)
  have r: "set_maxAge s1' (JNum ttl) = (Inr (), trim (s1'\<lparr>MAX_AGE := ttl\<rparr>))"
    by (simp add: set_maxAge_def)
  have m2: "MAX_AGE s2 = ttl" "clock s2 = clock s1'" by (simp_all add: s2_def r)
  have i2: "cache_inv s2" unfolding s2_def using i1' by (rule cache_inv_set_maxAge)
  have c: "ttl < clock s2" using ttl(2) by (simp add: m2 s1'_def s1_def)
  have v: "stale s2 hit \<and> evicted_by_visits s2 k node hit"
    if "map_of (CACHE s2) k = Some node" "heap s2 node = Some hit" "hit_now hit = 0"
      "hit_maxAge hit = 0" for k node hit
  proof -
    have "stale s2 hit" using that(3,4) ttl(1) c m2(1) by (simp add: stale_def effectiveTtl_def)
    with stale_entry_evicted_by_visits[OF i2 that(1,2)] show ?thesis by simp
  qed
  have "heap s1 (next_id self) = Some ?hit \<and>
        (\<forall>node. map_of (CACHE s1) key = Some node \<longrightarrow> node = next_id self) \<and>
        (\<forall>node hit. map_of (CACHE s1) key = Some node \<and> heap s1 node = Some hit \<longrightarrow>
           \<not> stale s1 hit) \<and>
        (\<not> UPDATE_AGE_ON_GET self \<longrightarrow>
           (\<forall>k. heap (snd (LRUCache_get s1 k)) = heap s1 \<and> heap (snd (peek s1 k)) = heap s1)) \<and>
        fst (set_maxAge s1' (JNum ttl)) = Inr () \<and> MAX_AGE s2 = ttl \<and>
        (\<forall>k node hit. map_of (CACHE s2) k = Some node \<and> heap s2 node = Some hit \<and>
           hit_now hit = 0 \<and> hit_maxAge hit = 0 \<longrightarrow>
           stale s2 hit \<and> evicted_by_visits s2 k node hit)"
    using h1 n1 st1 rd m2(1) v by (simp add: r) blast
  then show ?thesis unfolding Let_def s1_def s1'_def s2_def .
qed

theorem sentinel_timestamp_expires_witness:
  "cache_inv ex_empty \<and> MAX_AGE ex_empty = 0 \<and> map_of (CACHE ex_empty) ''a'' = None \<and>
   \<not> gt (LENGTH_CALCULATOR ex_empty 1 ''a'') (MAX' ex_empty) \<and> (0::int) < 100 \<and>
   snd (LRUCache_set ex_empty ''a'' 1 JUndefined) = ex_a \<and>
   foldl exec ex_a [Op_get ''a'', Tick 1200] = ex_a\<lparr>clock := 1200\<rparr> \<and>
   100 < clock (ex_a\<lparr>clock := 1200\<rparr>) \<and>
   set_maxAge (ex_a\<lparr>clock := 1200\<rparr>) (JNum 100) = (Inr (), ex_a\<lparr>MAX_AGE := 100, clock := 1200\<rparr>) \<and>
   map_of (CACHE (ex_a\<lparr>MAX_AGE := 100, clock := 1200\<rparr>)) ''a'' = Some 0 \<and>
   stale (ex_a\<lparr>MAX_AGE := 100, clock := 1200\<rparr>)
     \<lparr>hit_key = ''a'', hit_value = 1, hit_length = 1, hit_now = 0, hit_maxAge = 0\<rparr> \<and>
   evicted_by_visits (ex_a\<lparr>MAX_AGE := 100, clock := 1200\<rparr>) ''a'' 0
     \<lparr>hit_key = ''a'', hit_value = 1, hit_length = 1, hit_now = 0, hit_maxAge = 0\<rparr>"
proof -
  let ?hit = "\<lparr>hit_key = ''a'', hit_value = 1::int, hit_length = 1, hit_now = 0, hit_maxAge = 0\<rparr>"
  let ?s2 = "ex_a\<lparr>MAX_AGE := 100, clock := 1200\<rparr>"
  have i: "cache_inv ex_empty" by (rule cache_inv_constructor[OF ex_empty_constructed])
  have a: "MAX_AGE ex_empty = 0" "map_of (CACHE ex_empty) ''a'' = None"
    "\<not> gt (LENGTH_CALCULATOR ex_empty 1 ''a'') (MAX' ex_empty)"
    by (simp_all add: ex_empty_def)
  have s1: "snd (LRUCache_set ex_empty ''a'' 1 JUndefined) = ex_a"
    using ex_a_reached by simp
  have s1': "foldl exec ex_a [Op_get ''a'', Tick 1200] = ex_a\<lparr>clock := 1200\<rparr>"
    by (simp add: ex_a_def ex_empty_def LRUCache_get_def get_def isStale_def Let_def
        unshiftNode_def)
  have c: "100 < clock (ex_a\<lparr>clock := 1200\<rparr>)" by simp
  have s2: "set_maxAge (ex_a\<lparr>clock := 1200\<rparr>) (JNum 100) = (Inr (), ?s2)"
    by (simp add: set_maxAge_def trim_def ex_a_def ex_empty_def)
  have b: "map_of (CACHE ?s2) ''a'' = Some 0" "heap ?s2 0 = Some ?hit"
    by (simp_all add: ex_a_def ex_empty_def)
  have t: "(0::int) < 100" by simp
  have c': "100 < clock (foldl exec (snd (LRUCache_set ex_empty ''a'' 1 JUndefined))
      [Op_get ''a'', Tick 1200])"
    unfolding s1 s1' by simp
  from sentinel_timestamp_expires[OF i a(1,2,3) t c']
  have "stale ?s2 ?hit \<and> evicted_by_visits ?s2 ''a'' 0 ?hit"
    unfolding Let_def s1 s1' s2 using b by simp
  with i a s1 s1' c s2 b t show ?thesis by (intro conjI) simp_all
qed

text \<open>
  Claim C9 as stated fails for an entry that was read in between. The cache \<open>ex_age 1000\<close>
  is configured with \<^verbatim>\<open>updateAgeOnGet\<close> and no default age; \<^verbatim>\<open>set(a, 1)\<close> stores \<open>a\<close>
  with timestamp 0, and the \<^verbatim>\<open>get(a)\<close> at clock 1080 replaces the 0 by 1080. After
  \<^verbatim>\<open>maxAge = 100\<close> the entry of \<open>a\<close> is not stale: \<^verbatim>\<open>has(a)\<close> is true, \<^verbatim>\<open>get(a)\<close> and
  \<^verbatim>\<open>peek(a)\<close> return 1 and keep it, \<^verbatim>\<open>prune\<close>, \<^verbatim>\<open>forEach\<close> and \<^verbatim>\<open>rforEach\<close> evict only
  \<open>b\<close>, which still has timestamp 0.
\<close>

theorem refreshed_entry_outlives_ttl:
  "constructor (OptArg ex_age_options) 1000 = Inr (ex_age 1000) \<and>
   MAX_AGE (ex_age 1000) = 0 \<and>
   heap (exec (ex_age 1000) (Op_set ''a'' 1 JUndefined)) 0 =
     Some \<lparr>hit_key = ''a'', hit_value = 1, hit_length = 1, hit_now = 0, hit_maxAge = 0\<rparr> \<and>
   foldl exec (ex_age 1000)
     [Op_set ''a'' 1 JUndefined, Op_set ''b'' 2 JUndefined, Tick 1080, Op_get ''a''] = ex_age_ab \<and>
   set_maxAge ex_age_ab (JNum 100) = (Inr (), ex_age_ab\<lparr>MAX_AGE := 100\<rparr>) \<and>
   heap (ex_age_ab\<lparr>MAX_AGE := 100\<rparr>) 0 =
     Some \<lparr>hit_key = ''a'', hit_value = 1, hit_length = 1, hit_now = 1080, hit_maxAge = 0\<rparr> \<and>
   \<not> stale (ex_age_ab\<lparr>MAX_AGE := 100\<rparr>)
     \<lparr>hit_key = ''a'', hit_value = 1, hit_length = 1, hit_now = 1080, hit_maxAge = 0\<rparr> \<and>
   fst (has (ex_age_ab\<lparr>MAX_AGE := 100\<rparr>) ''a'') = True \<and>
   fst (LRUCache_get (ex_age_ab\<lparr>MAX_AGE := 100\<rparr>) ''a'') = Some 1 \<and>
   keys (snd (LRUCache_get (ex_age_ab\<lparr>MAX_AGE := 100\<rparr>) ''a'')) = [''a'', ''b''] \<and>
   fst (peek (ex_age_ab\<lparr>MAX_AGE := 100\<rparr>) ''a'') = Some 1 \<and>
   keys (prune (ex_age_ab\<lparr>MAX_AGE := 100\<rparr>)) = [''a''] \<and>
   keys (snd (forEach (ex_age_ab\<lparr>MAX_AGE := 100\<rparr>))) = [''a''] \<and>
   keys (snd (rforEach (ex_age_ab\<lparr>MAX_AGE := 100\<rparr>))) = [''a'']"
proof -
  have 1: "heap (exec (ex_age 1000) (Op_set ''a'' 1 JUndefined)) 0 =
     Some \<lparr>hit_key = ''a'', hit_value = 1, hit_length = 1, hit_now = 0, hit_maxAge = 0\<rparr>"
    by (simp add: ex_age_def LRUCache_set_def Let_def new_LEntry_def unshift_def trim_def
        naiveLength_def num_add_exact)
  have 2: "set_maxAge ex_age_ab (JNum 100) = (Inr (), ex_age_ab\<lparr>MAX_AGE := 100\<rparr>)"
    by (simp add: set_maxAge_def trim_def ex_age_ab_def ex_age_def)
  have 3: "heap (ex_age_ab\<lparr>MAX_AGE := 100\<rparr>) 0 =
     Some \<lparr>hit_key = ''a'', hit_value = 1, hit_length = 1, hit_now = 1080, hit_maxAge = 0\<rparr>"
    "\<not> stale (ex_age_ab\<lparr>MAX_AGE := 100\<rparr>)
     \<lparr>hit_key = ''a'', hit_value = 1, hit_length = 1, hit_now = 1080, hit_maxAge = 0\<rparr>"
    by (simp_all add: ex_age_ab_def ex_age_def stale_def effectiveTtl_def)
  have 4: "fst (has (ex_age_ab\<lparr>MAX_AGE := 100\<rparr>) ''a'') = True"
    "fst (LRUCache_get (ex_age_ab\<lparr>MAX_AGE := 100\<rparr>) ''a'') = Some 1"
    "keys (snd (LRUCache_get (ex_age_ab\<lparr>MAX_AGE := 100\<rparr>) ''a'')) = [''a'', ''b'']"
    "fst (peek (ex_age_ab\<lparr>MAX_AGE := 100\<rparr>) ''a'') = Some 1"
    by (simp_all add: ex_age_ab_def ex_age_def has_def LRUCache_get_def peek_def get_def
        isStale_def Date_now_def Let_def unshiftNode_def keys_def toArray_def List.map_filter_def)
  have 5: "keys (prune (ex_age_ab\<lparr>MAX_AGE := 100\<rparr>)) = [''a'']"
    by (simp add: ex_age_ab_def ex_age_def prune_def get_def isStale_def Date_now_def Let_def
        del_def removeNode_def keys_def toArray_def List.map_filter_def num_sub_exact)
  have 6: "keys (snd (forEach (ex_age_ab\<lparr>MAX_AGE := 100\<rparr>))) = [''a'']"
    "keys (snd (rforEach (ex_age_ab\<lparr>MAX_AGE := 100\<rparr>))) = [''a'']"
    by (simp_all add: ex_age_ab_def ex_age_def forEach_def rforEach_def forEachStep_def
        isStale_def Date_now_def Let_def del_def removeNode_def keys_def toArray_def
        List.map_filter_def num_sub_exact)
  have 0: "MAX_AGE (ex_age 1000) = 0" by (simp add: ex_age_def)
  show ?thesis by (intro conjI ex_age_constructed 0 1 ex_age_ab_reached 2 3 4 5 6)
qed

section \<open>Dump and load\<close>

text \<open>
  Claim C6, at the input where the code departs from it. In the cache \<open>ex_age_ab\<close> no age
  applies to any entry, so both entries never expire, and \<^verbatim>\<open>has\<close> is true of both keys. The
  \<^verbatim>\<open>get(a)\<close> under \<^verbatim>\<open>updateAgeOnGet\<close> has stored the clock reading 1080 in the entry of
  \<open>a\<close>, and \<^verbatim>\<open>dump\<close> emits \<^verbatim>\<open>hit.now + (hit.maxAge || 0)\<close>: the record of \<open>a\<close> carries
  \<open>e = 1080\<close> where the record of \<open>b\<close> carries the 0 of an entry that does not expire.
  \<^verbatim>\<open>load\<close> of the dump into a fresh cache of the same configuration, at the same clock
  reading, computes the remaining age \<open>1080 - 1080\<close> for \<open>a\<close> and drops the record: the
  loaded cache holds \<open>b\<close> alone.
\<close>

theorem dump_load_drops_refreshed_entry:
  "keys ex_age_ab = [''a'', ''b''] \<and> MAX_AGE ex_age_ab = 0 \<and>
   map hit_maxAge (toArray ex_age_ab) = [0, 0] \<and>
   fst (has ex_age_ab ''a'') = True \<and> fst (has ex_age_ab ''b'') = True \<and>
   dump ex_age_ab =
     [\<lparr>entry_k = ''a'', entry_v = 1, entry_e = 1080\<rparr>,
      \<lparr>entry_k = ''b'', entry_v = 2, entry_e = 0\<rparr>] \<and>
   fst (load (ex_age 1080) (dump ex_age_ab)) = Inr () \<and>
   keys (snd (load (ex_age 1080) (dump ex_age_ab))) = [''b''] \<and>
   fst (has (snd (load (ex_age 1080) (dump ex_age_ab))) ''a'') = False"
proof -
  have k: "keys ex_age_ab = [''a'', ''b'']" "MAX_AGE ex_age_ab = 0"
    "map hit_maxAge (toArray ex_age_ab) = [0, 0]"
    "fst (has ex_age_ab ''a'') = True" "fst (has ex_age_ab ''b'') = True"
    by (simp_all add: ex_age_ab_def ex_age_def keys_def toArray_def List.map_filter_def has_def
        isStale_def)
  have d: "dump ex_age_ab =
     [\<lparr>entry_k = ''a'', entry_v = 1, entry_e = 1080\<rparr>,
      \<lparr>entry_k = ''b'', entry_v = 2, entry_e = 0\<rparr>]"
    by (simp add: dump_def ex_age_ab_def ex_age_def toArray_def List.map_filter_def isStale_def)
  have l: "snd (load (ex_age 1080) (dump ex_age_ab)) =
      (ex_age 1080)\<lparr>LENGTH := 1,
        heap := (\<lambda>n. None)(0 := Some \<lparr>hit_key = ''b'', hit_value = 2, hit_length = 1,
          hit_now = 0, hit_maxAge = 0\<rparr>),
        next_id := 1, LRU_LIST := [0], CACHE := [(''b'', 0)]\<rparr>"
    "fst (load (ex_age 1080) (dump ex_age_ab)) = Inr ()"
    unfolding d
    by (simp_all add: load_def reset_def ex_age_def Date_now_def LRUCache_set_def Let_def
        new_LEntry_def unshift_def trim_def naiveLength_def num_add_exact)
  have r: "keys (snd (load (ex_age 1080) (dump ex_age_ab))) = [''b'']"
    "fst (has (snd (load (ex_age 1080) (dump ex_age_ab))) ''a'') = False"
    unfolding l by (simp_all add: ex_age_def keys_def toArray_def List.map_filter_def has_def)
  show ?thesis by (intro conjI k d l(2) r)
qed

section \<open>The index, the list and the running total\<close>


















lemma reset_frame [simp]:
  "MAX' (reset self) = MAX' self" "MAX_AGE (reset self) = MAX_AGE self"
  "clock (reset self) = clock self" "LENGTH_CALCULATOR (reset self) = LENGTH_CALCULATOR self"
  "LENGTH (reset self) = 0" "LRU_LIST (reset self) = []" "CACHE (reset self) = []"
  by (simp_all add: reset_def Let_def)























end
